theory Spec2Isabelle
  imports Complex_Main "HOL-Library.Multiset"
begin

section \<open>Experience replay buffers of \<^verbatim>\<open>base/experience_replay.py\<close>\<close>

text \<open>
  Every exception the Python code can raise is a value of \<open>error\<close>. The first four are
  the Python exceptions of the buffer code and of numpy; the next three are the error
  kinds the specification gives to the segment tree, whose source file
  (\<^verbatim>\<open>base/segment_tree.py\<close>) is not part of the sources at hand. \<open>EmptyBuffer\<close> is the
  error kind that the specification names for sampling from a buffer without
  transitions; the buffer code has no test for emptiness and no statement that raises
  it. \<open>Unmodelled\<close> marks the two places where Python would go on computing with a value
  that is not a real number (the float \<open>inf\<close>, or a complex power of a negative base);
  no buffer state that the operations can produce reaches them (lemma
  \<open>unmodelled_not_reached\<close>).
\<close>

datatype error =
    AssertionError | IndexError | ValueError | ZeroDivisionError
  | IndexOutOfRange | PrefixOutOfRange | InvalidCapacity
  | EmptyBuffer
  | Unmodelled

subsection \<open>The base class \<^verbatim>\<open>ExperienceReplay\<close>\<close>

text \<open>
  The fields of \<^verbatim>\<open>ExperienceReplay\<close>. Python integers are \<open>int\<close>. A transition is an
  opaque row \<open>'a\<close>. The numpy array \<^verbatim>\<open>_transitions\<close> is the list of its rows; the empty
  list stands for the one-dimensional empty array \<^verbatim>\<open>np.asarray([])\<close> of the constructor
  (a two-dimensional array of the buffer always has at least one row).
  The field \<^verbatim>\<open>size\<close> is called \<open>size_buf\<close>, since \<open>size\<close> is a constant of HOL.
\<close>

record 'a experience_replay =
  transitions :: "'a list"
  current_idx :: int
  size_buf :: int
  max_size :: int

definition experience_replay_init :: "int \<Rightarrow> 'a experience_replay" where
  "experience_replay_init m =
     \<lparr>transitions = [], current_idx = 0, size_buf = 0, max_size = m\<rparr>"

text \<open>
  numpy's index on the first axis, as in \<^verbatim>\<open>arr[i, :]\<close>: an index \<open>i\<close> with
  \<open>-n \<le> i < n\<close> names a row (negative indices count from the end), any other index
  raises IndexError. On the one-dimensional empty array the two indices are one too many,
  which is an IndexError as well.
\<close>

definition np_index :: "'a list \<Rightarrow> int \<Rightarrow> error + nat" where
  "np_index xs i =
     (let n = int (length xs)
      in if xs = [] then Inl IndexError
         else if - n \<le> i \<and> i < n then Inr (nat (if i < 0 then i + n else i))
         else Inl IndexError)"

text \<open>
  \<^verbatim>\<open>add_transition\<close> (lines 37 to 44). \<^verbatim>\<open>[row] * max_size\<close> is the list of \<open>max_size\<close>
  copies of the row, empty when \<open>max_size \<le> 0\<close>; \<^verbatim>\<open>%\<close> raises ZeroDivisionError on a
  zero modulus and otherwise agrees with \<open>mod\<close> on \<open>int\<close>.
\<close>

definition add_transition ::
  "('a, 'z) experience_replay_scheme \<Rightarrow> 'a \<Rightarrow> error + ('a, 'z) experience_replay_scheme" where
  "add_transition b t =
     (let b1 = (if size_buf b = 0
                then b\<lparr>transitions := replicate (nat (max_size b)) t\<rparr> else b)
      in case np_index (transitions b1) (current_idx b1) of
           Inl e \<Rightarrow> Inl e
         | Inr i \<Rightarrow>
             if max_size b1 = 0 then Inl ZeroDivisionError
             else Inr (b1\<lparr>transitions := (transitions b1)[i := t],
                          size_buf := min (size_buf b1 + 1) (max_size b1),
                          current_idx := (current_idx b1 + 1) mod max_size b1\<rparr>))"

text \<open>The loop \<^verbatim>\<open>for t in ...: buffer.add_transition(t)\<close>; an exception ends it.\<close>

fun add_transitions ::
  "('a, 'z) experience_replay_scheme \<Rightarrow> 'a list \<Rightarrow> error + ('a, 'z) experience_replay_scheme" where
  "add_transitions b [] = Inr b"
| "add_transitions b (t # ts) =
     (case add_transition b t of Inl e \<Rightarrow> Inl e | Inr b' \<Rightarrow> add_transitions b' ts)"

text \<open>
  \<^verbatim>\<open>clone_buffer\<close> (lines 28 to 35): a fresh uniform buffer of capacity \<open>maxsize\<close>
  receives every row of the backing array of the source, in order.
\<close>

definition clone_buffer ::
  "('a, 'z) experience_replay_scheme \<Rightarrow> int \<Rightarrow> error + 'a experience_replay" where
  "clone_buffer new_buffer maxsize =
     add_transitions (experience_replay_init maxsize) (transitions new_buffer)"

subsection \<open>\<^verbatim>\<open>UniformExperienceReplay\<close>\<close>

text \<open>
  \<^verbatim>\<open>np.random.choice(a, size=k, replace=False)\<close> for an integer \<open>a\<close>: numpy draws a random
  permutation of \<open>0, ..., a - 1\<close> and returns its first \<open>k\<close> entries. The permutation is
  what the random generator gives, so it is an argument here. numpy raises ValueError for
  a negative \<open>k\<close>, for \<open>a \<le> 0\<close> unless no sample is taken, and for \<open>k > a\<close>.
\<close>

definition np_random_choice :: "int \<Rightarrow> int \<Rightarrow> int list \<Rightarrow> error + int list" where
  "np_random_choice a k perm =
     (if k < 0 then Inl ValueError
      else if a \<le> 0 \<and> k \<noteq> 0 then Inl ValueError
      else if k > a then Inl ValueError
      else Inr (take (nat k) perm))"

text \<open>numpy's row selection \<^verbatim>\<open>arr[indices, :]\<close> by an integer index array.\<close>

fun np_take_rows :: "'a list \<Rightarrow> int list \<Rightarrow> error + 'a list" where
  "np_take_rows xs [] = (if xs = [] then Inl IndexError else Inr [])"
| "np_take_rows xs (i # is) =
     (case np_index xs i of
        Inl e \<Rightarrow> Inl e
      | Inr j \<Rightarrow> (case np_take_rows xs is of
                    Inl e \<Rightarrow> Inl e
                  | Inr rows \<Rightarrow> Inr (xs ! j # rows)))"

text \<open>\<^verbatim>\<open>UniformExperienceReplay.sample\<close> (lines 79 to 84).\<close>

definition sample ::
  "('a, 'z) experience_replay_scheme \<Rightarrow> int \<Rightarrow> int list \<Rightarrow> error + 'a list" where
  "sample b batch_size perm =
     (let batch_size = (if batch_size > size_buf b then size_buf b else batch_size)
      in case np_random_choice (size_buf b) batch_size perm of
           Inl e \<Rightarrow> Inl e
         | Inr indices \<Rightarrow> np_take_rows (transitions b) indices)"

subsection \<open>The segment trees\<close>

text \<open>
  Modelled from the spec: the classes \<^verbatim>\<open>SumSegmentTree\<close> and \<^verbatim>\<open>MinSegmentTree\<close> of
  \<^verbatim>\<open>base/segment_tree.py\<close>, a file of this repository that is not among the sources.
  The specification (sections 3 and 4.1) describes one generic structure: a flat array of
  \<open>2 * capacity\<close> nodes, the root at index 1, the children of node \<open>i\<close> at \<open>2 * i\<close> and
  \<open>2 * i + 1\<close>, and leaf \<open>i\<close> at index \<open>capacity + i\<close>. The combine operation and its
  identity are arguments of the operations: \<open>+\<close> and \<open>0\<close> for the sum tree, the minimum and
  \<open>+\<infinity>\<close> for the min tree.
\<close>

record 'v segment_tree =
  capacity :: nat
  nodes :: "'v list"

fun is_power_of_two :: "nat \<Rightarrow> bool" where
  "is_power_of_two n = (if n \<le> 1 then n = 1 else even n \<and> is_power_of_two (n div 2))"

declare is_power_of_two.simps [simp del]

text \<open>
  Modelled from the spec: \<^verbatim>\<open>new(capacity, identity, combine)\<close>, which fails with
  InvalidCapacity unless the capacity is a power of two, and sets every leaf to the
  identity.
\<close>

definition st_new :: "int \<Rightarrow> 'v \<Rightarrow> error + 'v segment_tree" where
  "st_new cap ident =
     (if 0 < cap \<and> is_power_of_two (nat cap)
      then Inr \<lparr>capacity = nat cap, nodes = replicate (2 * nat cap) ident\<rparr>
      else Inl InvalidCapacity)"

text \<open>
  Modelled from the spec: \<^verbatim>\<open>set(index, value)\<close> writes the leaf and then recomputes
  every ancestor on the path to the root from its two children; it fails with
  IndexOutOfRange for an index outside \<open>[0, capacity)\<close>.
\<close>

function st_recompute :: "('v \<Rightarrow> 'v \<Rightarrow> 'v) \<Rightarrow> nat \<Rightarrow> 'v list \<Rightarrow> 'v list" where
  "st_recompute f i ns =
     (if i = 0 then ns
      else st_recompute f (i div 2) (ns[i := f (ns ! (2 * i)) (ns ! (2 * i + 1))]))"
  by pat_completeness auto
termination
  by (relation "measure (\<lambda>(f, i, ns). i)") auto

declare st_recompute.simps [simp del]

definition st_set ::
  "('v \<Rightarrow> 'v \<Rightarrow> 'v) \<Rightarrow> 'v segment_tree \<Rightarrow> int \<Rightarrow> 'v \<Rightarrow> error + 'v segment_tree" where
  "st_set f t idx v =
     (if 0 \<le> idx \<and> idx < int (capacity t)
      then (let leaf = capacity t + nat idx
            in Inr (t\<lparr>nodes := st_recompute f (leaf div 2) ((nodes t)[leaf := v])\<rparr>))
      else Inl IndexOutOfRange)"

text \<open>Modelled from the spec: \<^verbatim>\<open>get(index)\<close> returns the value of the leaf.\<close>

definition st_leaf :: "'v segment_tree \<Rightarrow> nat \<Rightarrow> 'v" where
  "st_leaf t i = nodes t ! (capacity t + i)"

definition st_get :: "'v segment_tree \<Rightarrow> int \<Rightarrow> error + 'v" where
  "st_get t idx =
     (if 0 \<le> idx \<and> idx < int (capacity t) then Inr (st_leaf t (nat idx))
      else Inl IndexOutOfRange)"

text \<open>
  Modelled from the spec: \<^verbatim>\<open>range_combine(lo, hi)\<close> returns the combine of the leaves
  in \<open>[lo, hi]\<close>, both ends included; an empty range gives the identity. The whole-tree
  queries \<^verbatim>\<open>sum()\<close> and \<^verbatim>\<open>min()\<close> read the aggregate that the root holds.
\<close>

definition st_range_combine ::
  "('v \<Rightarrow> 'v \<Rightarrow> 'v) \<Rightarrow> 'v \<Rightarrow> 'v segment_tree \<Rightarrow> int \<Rightarrow> int \<Rightarrow> error + 'v" where
  "st_range_combine f ident t lo hi =
     (if lo \<le> hi \<and> (lo < 0 \<or> int (capacity t) \<le> hi) then Inl IndexOutOfRange
      else Inr (foldr f (map (\<lambda>i. st_leaf t (nat i)) [lo..hi]) ident))"

definition st_root :: "'v segment_tree \<Rightarrow> 'v" where
  "st_root t = nodes t ! 1"

text \<open>
  Modelled from the spec: \<^verbatim>\<open>find_prefix_index(target)\<close> of the sum tree starts at the
  root; at an internal node it descends left if the target is below the value of the left
  child, and otherwise subtracts that value and descends right; it stops at a leaf. It
  fails with PrefixOutOfRange if the target is not below the total.
\<close>

function st_descend :: "real segment_tree \<Rightarrow> nat \<Rightarrow> real \<Rightarrow> nat" where
  "st_descend t node target =
     (if 0 < node \<and> node < capacity t
      then (if target < nodes t ! (2 * node)
            then st_descend t (2 * node) target
            else st_descend t (2 * node + 1) (target - nodes t ! (2 * node)))
      else node - capacity t)"
  by pat_completeness auto
termination
  by (relation "measure (\<lambda>(t, node, target). capacity t - node)") auto

declare st_descend.simps [simp del]

definition find_prefix_index :: "real segment_tree \<Rightarrow> real \<Rightarrow> error + int" where
  "find_prefix_index t target =
     (if st_root t \<le> target then Inl PrefixOutOfRange
      else Inr (int (st_descend t 1 target)))"

subsection \<open>\<^verbatim>\<open>PrioritizedExperienceReplay\<close>\<close>

text \<open>
  Priorities are Python floats; they are real numbers here, so rounding, underflow and
  overflow are left out, and what is proved below of a quotient, a product or a power is
  proved of exact arithmetic. The one float that is not a real number and that the
  program itself creates is the identity \<open>+\<infinity>\<close> of the min tree.
\<close>

datatype xreal = Fin real | PInf

fun xmin :: "xreal \<Rightarrow> xreal \<Rightarrow> xreal" where
  "xmin PInf y = y"
| "xmin (Fin a) PInf = Fin a"
| "xmin (Fin a) (Fin b) = Fin (min a b)"

text \<open>
  Python's \<^verbatim>\<open>x ** y\<close> on floats: 1 for a zero exponent whatever the base, the real power
  of a positive base, ZeroDivisionError for a zero base and a negative exponent. A
  negative base gives a real number for an integral exponent and a complex number
  otherwise.
\<close>

definition py_pow :: "real \<Rightarrow> real \<Rightarrow> error + real" where
  "py_pow x y =
     (if y = 0 then Inr 1
      else if 0 < x then Inr (x powr y)
      else if x = 0 then (if y < 0 then Inl ZeroDivisionError else Inr 0)
      else if y = of_int \<lfloor>y\<rfloor> then Inr (x powi \<lfloor>y\<rfloor>)
      else Inl Unmodelled)"

record 'a prioritized_experience_replay = "'a experience_replay" +
  alpha :: real
  beta :: real
  max_priority :: real
  st_sum :: "real segment_tree"
  st_min :: "xreal segment_tree"

text \<open>
  The constructor (lines 88 to 98). The loop \<^verbatim>\<open>while st_capacity < max_size\<close> starts at 1;
  the test \<open>0 < c\<close> is always true there and is what makes the recursion terminate on
  every argument.
\<close>

function st_capacity_loop :: "int \<Rightarrow> int \<Rightarrow> int" where
  "st_capacity_loop c m = (if 0 < c \<and> c < m then st_capacity_loop (c * 2) m else c)"
  by pat_completeness auto
termination
  by (relation "measure (\<lambda>(c, m). nat (m - c))") auto

declare st_capacity_loop.simps [simp del]

definition prioritized_init ::
  "int \<Rightarrow> real \<Rightarrow> real \<Rightarrow> error + 'a prioritized_experience_replay" where
  "prioritized_init m a be =
     (let st_capacity = st_capacity_loop 1 m
      in case st_new st_capacity 0 of
           Inl e \<Rightarrow> Inl e
         | Inr s \<Rightarrow>
             (case st_new st_capacity PInf of
                Inl e \<Rightarrow> Inl e
              | Inr mn \<Rightarrow>
                  Inr \<lparr>transitions = [], current_idx = 0, size_buf = 0, max_size = m,
                       alpha = a, beta = be, max_priority = 1, st_sum = s, st_min = mn\<rparr>))"

text \<open>\<^verbatim>\<open>PrioritizedExperienceReplay.add_transition\<close> (lines 100 to 104).\<close>

definition prioritized_add_transition ::
  "'a prioritized_experience_replay \<Rightarrow> 'a \<Rightarrow> error + 'a prioritized_experience_replay" where
  "prioritized_add_transition b t =
     (let idx = current_idx b
      in case add_transition b t of
           Inl e \<Rightarrow> Inl e
         | Inr b1 \<Rightarrow>
             (case py_pow (max_priority b1) (alpha b1) of
                Inl e \<Rightarrow> Inl e
              | Inr v \<Rightarrow>
                  (case st_set xmin (st_min b1) idx (Fin v) of
                     Inl e \<Rightarrow> Inl e
                   | Inr mn \<Rightarrow>
                       (case st_set (+) (st_sum b1) idx v of
                          Inl e \<Rightarrow> Inl e
                        | Inr s \<Rightarrow> Inr (b1\<lparr>st_min := mn, st_sum := s\<rparr>)))))"

text \<open>
  \<^verbatim>\<open>_sample_proportionally\<close> (lines 106 to 114). The \<open>i\<close>-th call of
  \<^verbatim>\<open>np.random.uniform(0, 1)\<close> returns \<open>us i\<close>: the random draws are an argument.
\<close>

fun proportional_loop ::
  "real segment_tree \<Rightarrow> real \<Rightarrow> (nat \<Rightarrow> real) \<Rightarrow> nat list \<Rightarrow> error + int list" where
  "proportional_loop t every_range_len us [] = Inr []"
| "proportional_loop t every_range_len us (i # is) =
     (let mass = us i * every_range_len + real i * every_range_len
      in case find_prefix_index t mass of
           Inl e \<Rightarrow> Inl e
         | Inr idx \<Rightarrow>
             (case proportional_loop t every_range_len us is of
                Inl e \<Rightarrow> Inl e
              | Inr indices \<Rightarrow> Inr (idx # indices)))"

definition sample_proportionally ::
  "'a prioritized_experience_replay \<Rightarrow> int \<Rightarrow> (nat \<Rightarrow> real) \<Rightarrow> error + int list" where
  "sample_proportionally b batch_size us =
     (case st_range_combine (+) 0 (st_sum b) 0 (size_buf b - 1) of
        Inl e \<Rightarrow> Inl e
      | Inr p_total \<Rightarrow>
          if batch_size = 0 then Inl ZeroDivisionError
          else proportional_loop (st_sum b) (p_total / of_int batch_size) us
                 [0..<nat batch_size])"

text \<open>
  \<^verbatim>\<open>PrioritizedExperienceReplay.sample\<close> (lines 116 to 133). The result is the list of
  the rows of the returned array: the transition, its weight and its index. An empty
  \<^verbatim>\<open>np.array(indices)\<close> has the type float, which numpy refuses as an index.
\<close>

fun weights_loop ::
  "'a prioritized_experience_replay \<Rightarrow> real \<Rightarrow> int list \<Rightarrow> error + real list" where
  "weights_loop b max_weight [] = Inr []"
| "weights_loop b max_weight (idx # indices) =
     (case st_get (st_sum b) idx of
        Inl e \<Rightarrow> Inl e
      | Inr p \<Rightarrow>
          if st_root (st_sum b) = 0 then Inl ZeroDivisionError
          else (let p_sample = p / st_root (st_sum b)
                in case py_pow (p_sample * of_int (size_buf b)) (- beta b) of
                     Inl e \<Rightarrow> Inl e
                   | Inr weight \<Rightarrow>
                       if max_weight = 0 then Inl ZeroDivisionError
                       else (case weights_loop b max_weight indices of
                               Inl e \<Rightarrow> Inl e
                             | Inr weights \<Rightarrow> Inr (weight / max_weight # weights))))"

definition prioritized_sample ::
  "'a prioritized_experience_replay \<Rightarrow> int \<Rightarrow> (nat \<Rightarrow> real) \<Rightarrow>
     error + ('a \<times> real \<times> int) list" where
  "prioritized_sample b batch_size us =
     (let batch_size = (if batch_size > size_buf b then size_buf b else batch_size)
      in case sample_proportionally b batch_size us of
           Inl e \<Rightarrow> Inl e
         | Inr indices \<Rightarrow>
             if st_root (st_sum b) = 0 then Inl ZeroDivisionError
             else (case st_root (st_min b) of
                     PInf \<Rightarrow> Inl Unmodelled
                   | Fin m \<Rightarrow>
                       (let p_min = m / st_root (st_sum b)
                        in case py_pow (p_min * of_int (size_buf b)) (- beta b) of
                             Inl e \<Rightarrow> Inl e
                           | Inr max_weight \<Rightarrow>
                               (case weights_loop b max_weight indices of
                                  Inl e \<Rightarrow> Inl e
                                | Inr weights \<Rightarrow>
                                    if indices = [] then Inl IndexError
                                    else (case np_take_rows (transitions b) indices of
                                            Inl e \<Rightarrow> Inl e
                                          | Inr rows \<Rightarrow>
                                              Inr (zip rows (zip weights indices)))))))"

text \<open>
  \<^verbatim>\<open>update_priorities\<close> (lines 135 to 142). An exception leaves the object as the
  earlier rounds of the loop have changed it, so the error comes with the state at the
  moment it was raised. \<^verbatim>\<open>zip\<close> stops at the end of the shorter list.
\<close>

fun update_priorities_loop ::
  "'a prioritized_experience_replay \<Rightarrow> (int \<times> real) list \<Rightarrow>
     (error \<times> 'a prioritized_experience_replay) + 'a prioritized_experience_replay" where
  "update_priorities_loop b [] = Inr b"
| "update_priorities_loop b ((idx, priority) # rest) =
     (if \<not> priority > 0 then Inl (AssertionError, b)
      else if \<not> (0 \<le> idx \<and> idx < size_buf b) then Inl (AssertionError, b)
      else (case py_pow priority (alpha b) of
              Inl e \<Rightarrow> Inl (e, b)
            | Inr v \<Rightarrow>
                (case st_set (+) (st_sum b) idx v of
                   Inl e \<Rightarrow> Inl (e, b)
                 | Inr s \<Rightarrow>
                     (case st_set xmin (st_min b) idx (Fin v) of
                        Inl e \<Rightarrow> Inl (e, b\<lparr>st_sum := s\<rparr>)
                      | Inr mn \<Rightarrow>
                          update_priorities_loop
                            (b\<lparr>st_sum := s, st_min := mn,
                               max_priority := max (max_priority b) priority\<rparr>) rest))))"

definition update_priorities ::
  "'a prioritized_experience_replay \<Rightarrow> int list \<Rightarrow> real list \<Rightarrow>
     (error \<times> 'a prioritized_experience_replay) + 'a prioritized_experience_replay" where
  "update_priorities b indices priorities = update_priorities_loop b (zip indices priorities)"

definition update_beta ::
  "'a prioritized_experience_replay \<Rightarrow> real \<Rightarrow> 'a prioritized_experience_replay" where
  "update_beta b be = b\<lparr>beta := be\<rparr>"

subsection \<open>The states of the store\<close>

text \<open>
  What holds of the four fields in every state that the constructor and
  \<^verbatim>\<open>add_transition\<close> produce: either nothing was inserted yet, or the backing array has
  \<open>max_size\<close> rows, the cursor is a row index, and the cursor equals the size until the
  buffer is full.
\<close>

definition store_inv :: "('a, 'z) experience_replay_scheme \<Rightarrow> bool" where
  "store_inv b \<longleftrightarrow>
     (size_buf b = 0 \<and> transitions b = [] \<and> current_idx b = 0) \<or>
     (1 \<le> size_buf b \<and> size_buf b \<le> max_size b \<and>
      int (length (transitions b)) = max_size b \<and>
      0 \<le> current_idx b \<and> current_idx b < max_size b \<and>
      (size_buf b = max_size b \<or> current_idx b = size_buf b))"

subsection \<open>The states of the prioritized buffer\<close>

text \<open>The order of the values of the min tree, with \<open>+\<infinity>\<close> on top.\<close>

fun xle :: "xreal \<Rightarrow> xreal \<Rightarrow> bool" where
  "xle x PInf = True"
| "xle PInf (Fin b) = False"
| "xle (Fin a) (Fin b) = (a \<le> b)"

text \<open>
  The invariant of a segment tree: the node array has \<open>2 * capacity\<close> entries, the
  capacity is a power of two, and every internal node is the combine of its two children.
\<close>

definition tree_inv :: "('v \<Rightarrow> 'v \<Rightarrow> 'v) \<Rightarrow> 'v segment_tree \<Rightarrow> bool" where
  "tree_inv f t \<longleftrightarrow>
     is_power_of_two (capacity t) \<and> length (nodes t) = 2 * capacity t \<and>
     (\<forall>i\<in>{1..<capacity t}. nodes t ! i = f (nodes t ! (2 * i)) (nodes t ! (2 * i + 1)))"

text \<open>
  The two trees are aligned with the store: an occupied slot has the same positive value
  in both trees, and a leaf beyond the size still holds the identity.
\<close>

definition leaves_aligned :: "'a prioritized_experience_replay \<Rightarrow> bool" where
  "leaves_aligned b \<longleftrightarrow>
     (\<forall>i\<in>{0..<capacity (st_sum b)}.
        if int i < size_buf b
        then 0 < st_leaf (st_sum b) i \<and> st_leaf (st_min b) i = Fin (st_leaf (st_sum b) i)
        else st_leaf (st_sum b) i = 0 \<and> st_leaf (st_min b) i = PInf)"

definition prioritized_inv :: "'a prioritized_experience_replay \<Rightarrow> bool" where
  "prioritized_inv b \<longleftrightarrow>
     store_inv b \<and> tree_inv (+) (st_sum b) \<and> tree_inv xmin (st_min b) \<and>
     capacity (st_min b) = capacity (st_sum b) \<and>
     max_size b \<le> int (capacity (st_sum b)) \<and> 1 \<le> max_priority b \<and>
     leaves_aligned b"

text \<open>
  The states a prioritized buffer can be in: the constructor makes one, and each method
  leads from one to the next, also when \<^verbatim>\<open>update_priorities\<close> raises.
\<close>

inductive reachable :: "'a prioritized_experience_replay \<Rightarrow> bool" where
  reachable_init: "prioritized_init m a be = Inr b \<Longrightarrow> reachable b"
| reachable_add: "reachable b \<Longrightarrow> prioritized_add_transition b t = Inr b' \<Longrightarrow> reachable b'"
| reachable_update:
    "reachable b \<Longrightarrow> update_priorities b indices priorities = Inr b' \<Longrightarrow> reachable b'"
| reachable_update_raised:
    "reachable b \<Longrightarrow> update_priorities b indices priorities = Inl (e, b') \<Longrightarrow> reachable b'"
| reachable_beta: "reachable b \<Longrightarrow> reachable (update_beta b be)"

text \<open>
  A pair that \<^verbatim>\<open>update_priorities\<close> accepts: both assertions of the loop body hold.
\<close>

definition valid_pair :: "'a prioritized_experience_replay \<Rightarrow> int \<times> real \<Rightarrow> bool" where
  "valid_pair b pr \<longleftrightarrow> 0 < snd pr \<and> 0 \<le> fst pr \<and> fst pr < size_buf b"

subsection \<open>Concrete buffers\<close>

text \<open>
  The states of \<^verbatim>\<open>PrioritizedExperienceReplay(2, 1, 1)\<close> after the transition 10 has
  been inserted, and after 10 and 11 have been inserted: an occupied leaf holds the
  priority \<open>1\<close>, node 0 of each tree is unused and keeps its initial value. The third
  state is the second one after the priority of slot 0 has been set to \<open>2\<close>.
\<close>

definition example_buffer_1 :: "nat prioritized_experience_replay" where
  "example_buffer_1 =
     \<lparr>transitions = [10, 10], current_idx = 1, size_buf = 1, max_size = 2,
      alpha = 1, beta = 1, max_priority = 1,
      st_sum = \<lparr>capacity = 2, nodes = [0, 1, 1, 0]\<rparr>,
      st_min = \<lparr>capacity = 2, nodes = [PInf, Fin 1, Fin 1, PInf]\<rparr>\<rparr>"

definition example_buffer :: "nat prioritized_experience_replay" where
  "example_buffer =
     \<lparr>transitions = [10, 11], current_idx = 0, size_buf = 2, max_size = 2,
      alpha = 1, beta = 1, max_priority = 1,
      st_sum = \<lparr>capacity = 2, nodes = [0, 2, 1, 1]\<rparr>,
      st_min = \<lparr>capacity = 2, nodes = [PInf, Fin 1, Fin 1, Fin 1]\<rparr>\<rparr>"

definition example_buffer_updated :: "nat prioritized_experience_replay" where
  "example_buffer_updated =
     \<lparr>transitions = [10, 11], current_idx = 0, size_buf = 2, max_size = 2,
      alpha = 1, beta = 1, max_priority = 2,
      st_sum = \<lparr>capacity = 2, nodes = [0, 3, 2, 1]\<rparr>,
      st_min = \<lparr>capacity = 2, nodes = [PInf, Fin 1, Fin 2, Fin 1]\<rparr>\<rparr>"

section \<open>Properties of the store\<close>

lemma np_index_in_range:
  "0 \<le> i \<Longrightarrow> i < int (length xs) \<Longrightarrow> np_index xs i = Inr (nat i)"
  by (auto simp: np_index_def Let_def)

lemma store_inv_init: "store_inv (experience_replay_init m)"
  by (simp add: store_inv_def experience_replay_init_def)

lemma add_transition_first:
  assumes "size_buf b = 0" "current_idx b = 0" "1 \<le> max_size b"
  shows "add_transition b t =
           Inr (b\<lparr>transitions := replicate (nat (max_size b)) t,
                  size_buf := 1, current_idx := 1 mod max_size b\<rparr>)"
proof -
  have "np_index (replicate (nat (max_size b)) t) 0 = Inr 0"
    using assms by (simp add: np_index_def)
  moreover have "(replicate (nat (max_size b)) t)[0 := t] = replicate (nat (max_size b)) t"
    using assms by (simp add: list_eq_iff_nth_eq nth_list_update)
  ultimately show ?thesis
    using assms by (simp add: add_transition_def Let_def)
qed

lemma add_transition_later:
  assumes "1 \<le> size_buf b" "0 \<le> current_idx b" "current_idx b < int (length (transitions b))"
    and "max_size b \<noteq> 0"
  shows "add_transition b t =
           Inr (b\<lparr>transitions := (transitions b)[nat (current_idx b) := t],
                  size_buf := min (size_buf b + 1) (max_size b),
                  current_idx := (current_idx b + 1) mod max_size b\<rparr>)"
  using assms by (simp add: add_transition_def Let_def np_index_in_range)

lemma add_transitions_append:
  "add_transitions b (xs @ ys) =
     (case add_transitions b xs of Inl e \<Rightarrow> Inl e | Inr b' \<Rightarrow> add_transitions b' ys)"
  by (induction xs arbitrary: b) (auto split: sum.splits)

lemma mod_neq_of_close:
  fixes i n C :: nat
  assumes "i < n" "n - i < C"
  shows "i mod C \<noteq> n mod C"
proof
  assume "i mod C = n mod C"
  then have "(n - i) mod C = 0"
    using assms by (metis less_imp_le_nat mod_eq_dvd_iff_nat dvd_imp_mod_0)
  then have "C dvd (n - i)" by auto
  then show False using assms by (auto dest: dvd_imp_le)
qed

lemma insert_seq:
  fixes C :: nat
  assumes "0 < C" "ts \<noteq> []"
  shows "\<exists>b. add_transitions (experience_replay_init (int C)) ts = Inr b \<and>
           max_size b = int C \<and> size_buf b = min (int (length ts)) (int C) \<and>
           current_idx b = int (length ts mod C) \<and> length (transitions b) = C \<and>
           (\<forall>i<length ts. length ts - i \<le> C \<longrightarrow> transitions b ! (i mod C) = ts ! i) \<and>
           (\<forall>j. length ts \<le> j \<and> j < C \<longrightarrow> transitions b ! j = ts ! 0)"
  using assms(2)
proof (induction ts rule: rev_nonempty_induct)
  case (single t)
  let ?b0 = "experience_replay_init (int C) :: 'a experience_replay"
  have "add_transition ?b0 t = Inr (?b0\<lparr>transitions := replicate C t, size_buf := 1, current_idx := 1 mod int C\<rparr>)"
    using add_transition_first[of ?b0 t] assms(1) by (simp add: experience_replay_init_def)
  moreover have "1 mod int C = int (Suc 0 mod C)" using zmod_int[of 1 C] by simp
  ultimately show ?case using assms(1)
    by (auto simp: experience_replay_init_def)
next
  case (snoc t ts)
  then obtain b where b: "add_transitions (experience_replay_init (int C)) ts = Inr b"
    "max_size b = int C" "size_buf b = min (int (length ts)) (int C)"
    "current_idx b = int (length ts mod C)" "length (transitions b) = C"
    "\<forall>i<length ts. length ts - i \<le> C \<longrightarrow> transitions b ! (i mod C) = ts ! i"
    "\<forall>j. length ts \<le> j \<and> j < C \<longrightarrow> transitions b ! j = ts ! 0"
    by blast
  let ?n = "length ts"
  have n0: "0 < ?n" using snoc.hyps by simp
  let ?b' = "b\<lparr>transitions := (transitions b)[nat (current_idx b) := t],
                  size_buf := min (size_buf b + 1) (max_size b),
                  current_idx := (current_idx b + 1) mod max_size b\<rparr>"
  have step: "add_transition b t = Inr ?b'"
    using add_transition_later[of b t] b assms(1) n0 by simp
  have run: "add_transitions (experience_replay_init (int C)) (ts @ [t]) = Inr ?b'"
    by (simp add: add_transitions_append b(1) step)
  have cur: "current_idx ?b' = int (length (ts @ [t]) mod C)"
    using b(2,4) by (simp add: zmod_int mod_simps add.commute)
  have sz: "size_buf ?b' = min (int (length (ts @ [t]))) (int C)"
    using b(2,3) by auto
  have c1: "\<forall>i<length (ts @ [t]). length (ts @ [t]) - i \<le> C \<longrightarrow>
              transitions ?b' ! (i mod C) = (ts @ [t]) ! i"
  proof (intro allI impI)
    fix i assume i: "i < length (ts @ [t])" "length (ts @ [t]) - i \<le> C"
    show "transitions ?b' ! (i mod C) = (ts @ [t]) ! i"
    proof (cases "i = ?n")
      case True
      then show ?thesis using b(4,5) assms(1) by simp
    next
      case False
      then have lt: "i < ?n" using i by simp
      then have "?n - i < C" using i by simp
      then have "i mod C \<noteq> ?n mod C" using lt mod_neq_of_close by blast
      moreover have "?n - i \<le> C" using i lt by simp
      ultimately show ?thesis using b(4,6) lt by (simp add: nth_append)
    qed
  qed
  have c2: "\<forall>j. length (ts @ [t]) \<le> j \<and> j < C \<longrightarrow> transitions ?b' ! j = (ts @ [t]) ! 0"
  proof (intro allI impI)
    fix j assume j: "length (ts @ [t]) \<le> j \<and> j < C"
    then have "?n mod C = ?n" "j \<noteq> ?n" by simp_all
    then show "transitions ?b' ! j = (ts @ [t]) ! 0"
      using b(4,7) j n0 by (simp add: nth_append)
  qed
  show ?case
    using run cur sz c1 c2 b(2,5) by simp
qed

lemma add_transition_store_inv:
  assumes "store_inv b" "1 \<le> max_size b"
  shows "\<exists>b'. add_transition b t = Inr b' \<and>
           size_buf b' = min (size_buf b + 1) (max_size b) \<and>
           current_idx b' = (current_idx b + 1) mod max_size b \<and>
           max_size b' = max_size b \<and>
           int (length (transitions b')) = max_size b \<and>
           transitions b' ! nat (current_idx b) = t \<and> store_inv b'"
proof (cases "size_buf b = 0")
  case True
  then have z: "current_idx b = 0" "transitions b = []"
    using assms(1) by (auto simp: store_inv_def)
  have "1 mod max_size b = 1 \<or> max_size b = 1"
    using assms(2) by (cases "max_size b = 1") auto
  then show ?thesis
    using add_transition_first[of b t] True z assms(2)
    by (auto simp: store_inv_def)
next
  case False
  then have inv: "1 \<le> size_buf b" "size_buf b \<le> max_size b"
    "int (length (transitions b)) = max_size b" "0 \<le> current_idx b"
    "current_idx b < max_size b" "size_buf b = max_size b \<or> current_idx b = size_buf b"
    using assms(1) by (auto simp: store_inv_def)
  let ?b' = "b\<lparr>transitions := (transitions b)[nat (current_idx b) := t],
                  size_buf := min (size_buf b + 1) (max_size b),
                  current_idx := (current_idx b + 1) mod max_size b\<rparr>"
  have step: "add_transition b t = Inr ?b'"
    using add_transition_later[of b t] inv assms(2) by simp
  have m: "0 \<le> (current_idx b + 1) mod max_size b" "(current_idx b + 1) mod max_size b < max_size b"
    using assms(2) by simp_all
  have cur: "min (size_buf b + 1) (max_size b) = max_size b \<or>
             (current_idx b + 1) mod max_size b = min (size_buf b + 1) (max_size b)"
  proof (cases "size_buf b + 1 < max_size b")
    case True
    then have "current_idx b = size_buf b" using inv by auto
    then show ?thesis using True inv(1) by (simp add: mod_pos_pos_trivial)
  next
    case False
    then show ?thesis using inv by auto
  qed
  have "store_inv ?b'"
    unfolding store_inv_def using inv m cur by simp
  moreover have "transitions ?b' ! nat (current_idx b) = t"
    using inv by simp
  ultimately show ?thesis using step inv by simp
qed

lemma add_transitions_store_inv:
  assumes "store_inv b" "1 \<le> max_size b"
  shows "\<exists>b'. add_transitions b ts = Inr b' \<and> max_size b' = max_size b \<and> store_inv b'"
  using assms
proof (induction ts arbitrary: b)
  case Nil
  then show ?case by simp
next
  case (Cons t ts)
  obtain b1 where b1: "add_transition b t = Inr b1" "max_size b1 = max_size b" "store_inv b1"
    using add_transition_store_inv[OF Cons.prems] by blast
  then show ?case using Cons.IH[of b1] Cons.prems by auto
qed

lemma add_transitions_fifo:
  fixes C :: nat
  assumes "0 < C" "C \<le> length ts"
  shows "\<exists>b. add_transitions (experience_replay_init (int C)) ts = Inr b \<and>
           size_buf b = int C \<and> current_idx b = int (length ts mod C) \<and>
           rotate (length ts mod C) (transitions b) = drop (length ts - C) ts"
proof -
  have ne: "ts \<noteq> []" using assms by auto
  obtain b where b: "add_transitions (experience_replay_init (int C)) ts = Inr b"
    "size_buf b = min (int (length ts)) (int C)"
    "current_idx b = int (length ts mod C)" "length (transitions b) = C"
    "\<forall>i<length ts. length ts - i \<le> C \<longrightarrow> transitions b ! (i mod C) = ts ! i"
    using insert_seq[OF assms(1) ne] by blast
  let ?n = "length ts"
  have "rotate (?n mod C) (transitions b) = drop (?n - C) ts"
  proof (rule nth_equalityI)
    show "length (rotate (?n mod C) (transitions b)) = length (drop (?n - C) ts)"
      using b(4) assms by simp
  next
    fix j assume "j < length (rotate (?n mod C) (transitions b))"
    then have j: "j < C" using b(4) by simp
    have "rotate (?n mod C) (transitions b) ! j = transitions b ! ((?n mod C + j) mod C)"
      using j b(4) by (simp add: nth_rotate)
    also have "(?n mod C + j) mod C = (?n - C + j) mod C"
    proof -
      have "(?n - C + j) mod C = (?n - C + j + C) mod C" by simp
      also have "?n - C + j + C = ?n + j" using assms by simp
      finally show ?thesis by (simp add: mod_simps)
    qed
    also have "transitions b ! ((?n - C + j) mod C) = ts ! (?n - C + j)"
      using b(5) j assms by simp
    also have "\<dots> = drop (?n - C) ts ! j"
      using j assms by simp
    finally show "rotate (?n mod C) (transitions b) ! j = drop (?n - C) ts ! j" .
  qed
  then show ?thesis using b assms by auto
qed

lemma np_take_rows_in_range:
  assumes "xs \<noteq> []" "\<forall>i\<in>set is. 0 \<le> i \<and> i < int (length xs)"
  shows "np_take_rows xs is = Inr (map (\<lambda>i. xs ! nat i) is)"
  using assms by (induction "is") (simp_all add: np_index_in_range)

lemma perm_upto_facts:
  assumes "mset perm = mset [0..n - 1]"
  shows "distinct perm" "set perm = {0..n - 1}" "int (length perm) = max 0 n"
proof -
  show "distinct perm"
    using assms by (metis distinct_upto mset_eq_imp_distinct_iff)
  show "set perm = {0..n - 1}"
    using assms by (metis mset_eq_setD set_upto)
  have "length perm = length [0..n - 1]"
    using assms by (metis mset_eq_length)
  then show "int (length perm) = max 0 n" by simp
qed

text \<open>
  Claim C7. On a uniform buffer with at least one transition, \<^verbatim>\<open>sample\<close> clamps the
  requested batch size to the size of the buffer and returns that many rows; their slot
  indices are pairwise distinct and lie in \<open>[0, size)\<close>, and the rows come in the order
  in which the indices were drawn. The batch size is a count, so it is not negative, and
  \<open>perm\<close> is the permutation of \<open>0, ..., size - 1\<close> that numpy's generator draws.
\<close>

theorem uniform_sample_distinct:
  assumes "store_inv b" "1 \<le> size_buf b" "0 \<le> batch_size"
    and "mset perm = mset [0..size_buf b - 1]"
  shows "\<exists>indices.
           np_random_choice (size_buf b) (min batch_size (size_buf b)) perm = Inr indices \<and>
           int (length indices) = min batch_size (size_buf b) \<and>
           distinct indices \<and>
           (\<forall>i\<in>set indices. 0 \<le> i \<and> i < size_buf b) \<and>
           sample b batch_size perm = Inr (map (\<lambda>i. transitions b ! nat i) indices)"
proof -
  let ?k = "min batch_size (size_buf b)"
  let ?ix = "take (nat ?k) perm"
  have inv: "size_buf b \<le> max_size b" "int (length (transitions b)) = max_size b"
    using assms(1,2) by (auto simp: store_inv_def)
  have clamp: "(if batch_size > size_buf b then size_buf b else batch_size) = ?k"
    by auto
  have ch: "np_random_choice (size_buf b) ?k perm = Inr ?ix"
    using assms(2,3) by (simp add: np_random_choice_def)
  have len: "int (length ?ix) = ?k"
    using perm_upto_facts(3)[OF assms(4)] assms(2,3) by auto
  have dist: "distinct ?ix"
    using perm_upto_facts(1)[OF assms(4)] by simp
  have rng: "\<forall>i\<in>set ?ix. 0 \<le> i \<and> i < size_buf b"
  proof
    fix i assume "i \<in> set ?ix"
    then have "i \<in> set perm" by (rule in_set_takeD)
    then show "0 \<le> i \<and> i < size_buf b"
      using perm_upto_facts(2)[OF assms(4)] by auto
  qed
  have ne: "transitions b \<noteq> []" using inv assms(2) by auto
  have rng': "\<forall>i\<in>set ?ix. 0 \<le> i \<and> i < int (length (transitions b))"
  proof
    fix i assume "i \<in> set ?ix"
    then have "0 \<le> i \<and> i < size_buf b" using rng by blast
    then show "0 \<le> i \<and> i < int (length (transitions b))" using inv by linarith
  qed
  have "np_take_rows (transitions b) ?ix = Inr (map (\<lambda>i. transitions b ! nat i) ?ix)"
    by (rule np_take_rows_in_range[OF ne rng'])
  then have "sample b batch_size perm = Inr (map (\<lambda>i. transitions b ! nat i) ?ix)"
    unfolding sample_def Let_def clamp by (simp add: ch)
  then show ?thesis using ch len dist rng by blast
qed

text \<open>
  Claim C8, as the code has it. On a uniform buffer that holds no transition,
  \<^verbatim>\<open>sample\<close> with a positive batch size fails: it raises an exception and returns no
  result, not even an empty one. The exception is not an EmptyBuffer error, since the
  code does not test for emptiness: it is numpy's IndexError, raised when the
  one-dimensional backing array that no insertion has replaced is indexed with two
  indices.
\<close>

theorem uniform_sample_empty_fails:
  assumes "store_inv b" "size_buf b = 0" "0 < batch_size"
  shows "sample b batch_size perm = Inl IndexError"
proof -
  have "transitions b = []" using assms(1,2) by (auto simp: store_inv_def)
  then show ?thesis
    using assms(2,3) by (simp add: sample_def np_random_choice_def)
qed

text \<open>
  Claim C1. A buffer is created with a capacity \<open>C \<ge> 1\<close> and receives the transitions
  \<open>ts\<close>, at least \<open>C\<close> of them. No insertion fails. Afterwards the size is \<open>C\<close>, and the
  backing array read from the write cursor on, wrapping around, is the list of the last
  \<open>C\<close> inserted transitions, the oldest first. Every single insertion, the \<open>k\<close>-th one on
  the state after the first \<open>k\<close>, writes the slot under the cursor, sets the size to
  \<open>min (size + 1) max_size\<close> and the cursor to \<open>(cursor + 1) mod max_size\<close>.
\<close>

theorem add_transition_fifo_eviction:
  assumes "1 \<le> C" "C \<le> int (length ts)"
  shows "(\<exists>b. add_transitions (experience_replay_init C) ts = Inr b \<and>
            size_buf b = C \<and>
            rotate (nat (current_idx b)) (transitions b) = drop (length ts - nat C) ts) \<and>
         (\<forall>k<length ts. \<exists>b b'.
            add_transitions (experience_replay_init C) (take k ts) = Inr b \<and>
            add_transition b (ts ! k) = Inr b' \<and>
            size_buf b' = min (size_buf b + 1) (max_size b) \<and>
            current_idx b' = (current_idx b + 1) mod max_size b \<and>
            transitions b' ! nat (current_idx b) = ts ! k)"
proof
  have "0 < nat C" "nat C \<le> length ts" using assms by auto
  from add_transitions_fifo[OF this] assms(1)
  show "\<exists>b. add_transitions (experience_replay_init C) ts = Inr b \<and>
            size_buf b = C \<and>
            rotate (nat (current_idx b)) (transitions b) = drop (length ts - nat C) ts"
    by auto
next
  show "\<forall>k<length ts. \<exists>b b'.
            add_transitions (experience_replay_init C) (take k ts) = Inr b \<and>
            add_transition b (ts ! k) = Inr b' \<and>
            size_buf b' = min (size_buf b + 1) (max_size b) \<and>
            current_idx b' = (current_idx b + 1) mod max_size b \<and>
            transitions b' ! nat (current_idx b) = ts ! k"
  proof (intro allI impI)
    fix k assume "k < length ts"
    let ?b0 = "experience_replay_init C :: 'a experience_replay"
    have i0: "store_inv ?b0" "1 \<le> max_size ?b0"
      using assms(1) by (simp_all add: store_inv_init) (simp add: experience_replay_init_def)
    obtain b where b: "add_transitions ?b0 (take k ts) = Inr b" "max_size b = max_size ?b0" "store_inv b"
      using add_transitions_store_inv[OF i0] by blast
    then have "1 \<le> max_size b" using i0 by simp
    from add_transition_store_inv[OF b(3) this, of "ts ! k"] b(1)
    show "\<exists>b b'.
            add_transitions (experience_replay_init C) (take k ts) = Inr b \<and>
            add_transition b (ts ! k) = Inr b' \<and>
            size_buf b' = min (size_buf b + 1) (max_size b) \<and>
            current_idx b' = (current_idx b + 1) mod max_size b \<and>
            transitions b' ! nat (current_idx b) = ts ! k"
      by blast
  qed
qed

text \<open>
  Claim C10. A buffer of capacity \<open>M \<ge> 1\<close> receives \<open>t0\<close> and then the transitions
  \<open>rest\<close>. The backing array has \<open>M\<close> rows; right after the first insertion each of them
  is \<open>t0\<close>; later every row at an index in \<open>[size, M)\<close> can be read without error and
  still is \<open>t0\<close>. \<^verbatim>\<open>clone_buffer\<close> with a capacity \<open>maxsize \<ge> 1\<close> inserts all \<open>M\<close> backing
  rows into the clone, whose size is then \<open>min M maxsize\<close>, also when the source holds
  fewer than \<open>M\<close> transitions.
\<close>

theorem padding_and_clone:
  assumes "1 \<le> M" "1 \<le> maxsize"
  shows "\<exists>b. add_transitions (experience_replay_init M) (t0 # rest) = Inr b \<and>
           int (length (transitions b)) = M \<and> max_size b = M \<and>
           (rest = [] \<longrightarrow> transitions b = replicate (nat M) t0) \<and>
           (\<forall>j. size_buf b \<le> j \<and> j < M \<longrightarrow>
                 (\<exists>i. np_index (transitions b) j = Inr i \<and> transitions b ! i = t0)) \<and>
           clone_buffer b maxsize =
             add_transitions (experience_replay_init maxsize) (transitions b) \<and>
           (\<exists>c. clone_buffer b maxsize = Inr c \<and> size_buf c = min (max_size b) maxsize)"
proof -
  let ?ts = "t0 # rest"
  have M: "0 < nat M" "int (nat M) = M" using assms(1) by auto
  obtain b where b: "add_transitions (experience_replay_init M) ?ts = Inr b"
    "max_size b = M" "size_buf b = min (int (length ?ts)) M"
    "length (transitions b) = nat M"
    "\<forall>i<length ?ts. length ?ts - i \<le> nat M \<longrightarrow> transitions b ! (i mod nat M) = ?ts ! i"
    "\<forall>j. length ?ts \<le> j \<and> j < nat M \<longrightarrow> transitions b ! j = ?ts ! 0"
    using insert_seq[OF M(1), of ?ts] M(2) by auto
  have first: "rest = [] \<longrightarrow> transitions b = replicate (nat M) t0"
  proof
    assume r: "rest = []"
    show "transitions b = replicate (nat M) t0"
    proof (rule nth_equalityI)
      show "length (transitions b) = length (replicate (nat M) t0)" using b(4) by simp
    next
      fix j assume "j < length (transitions b)"
      then have j: "j < nat M" using b(4) by simp
      show "transitions b ! j = replicate (nat M) t0 ! j"
      proof (cases "j = 0")
        case True
        then show ?thesis using b(5) r j by auto
      next
        case False
        then show ?thesis using b(6) r j by auto
      qed
    qed
  qed
  have pad: "\<forall>j. size_buf b \<le> j \<and> j < M \<longrightarrow>
                 (\<exists>i. np_index (transitions b) j = Inr i \<and> transitions b ! i = t0)"
  proof (intro allI impI)
    fix j assume j: "size_buf b \<le> j \<and> j < M"
    then have j0: "0 \<le> j" "int (length ?ts) \<le> j" "j < int (length (transitions b))"
      using b(3,4) by auto
    then have "np_index (transitions b) j = Inr (nat j)"
      by (simp add: np_index_in_range)
    moreover have "length ?ts \<le> nat j \<and> nat j < nat M"
      using j j0 by linarith
    then have "transitions b ! nat j = ?ts ! 0"
      using b(6) by blast
    then have "transitions b ! nat j = t0" by simp
    ultimately show "\<exists>i. np_index (transitions b) j = Inr i \<and> transitions b ! i = t0" by blast
  qed
  have ne: "transitions b \<noteq> []" using b(4) M(1) by auto
  have m: "0 < nat maxsize" using assms(2) by simp
  obtain c where c: "add_transitions (experience_replay_init (int (nat maxsize))) (transitions b) = Inr c"
    "size_buf c = min (int (length (transitions b))) (int (nat maxsize))"
    using insert_seq[OF m ne] by blast
  have "clone_buffer b maxsize = Inr c \<and> size_buf c = min (max_size b) maxsize"
    using c b(2,4) assms by (simp add: clone_buffer_def)
  then show ?thesis using b first pad M by (auto simp: clone_buffer_def)
qed

lemma upto_0_2: "[0..2::int] = [0, 1, 2]"
  by code_simp

theorem add_transition_fifo_eviction_witness:
  "(1::int) \<le> 2 \<and> 2 \<le> int (length [10, 11, 12::nat]) \<and>
   (\<exists>b. add_transitions (experience_replay_init 2) [10, 11, 12::nat] = Inr b \<and>
        size_buf b = 2 \<and> rotate (nat (current_idx b)) (transitions b) = [11, 12]) \<and>
   (\<exists>b b'. add_transitions (experience_replay_init 2) [10, 11::nat] = Inr b \<and>
        add_transition b 12 = Inr b' \<and> size_buf b' = min (size_buf b + 1) (max_size b) \<and>
        current_idx b' = (current_idx b + 1) mod max_size b \<and>
        transitions b' ! nat (current_idx b) = 12)"
proof -
  have h: "(1::int) \<le> 2" "2 \<le> int (length [10, 11, 12::nat])" by simp_all
  have d: "drop (length [10, 11, 12::nat] - nat 2) [10, 11, 12::nat] = [11, 12]" by simp
  have k: "(2::nat) < length [10, 11, 12::nat]" "take 2 [10, 11, 12::nat] = [10, 11]"
    "[10, 11, 12::nat] ! 2 = 12" by simp_all
  from add_transition_fifo_eviction[OF h]
  show ?thesis using d k by (metis h)
qed

theorem uniform_sample_distinct_witness:
  "store_inv \<lparr>transitions = [10, 11, 12::nat], current_idx = 0, size_buf = 3, max_size = 3\<rparr> \<and>
   mset [2, 0, 1] = mset [0..3 - 1::int] \<and>
   sample \<lparr>transitions = [10, 11, 12::nat], current_idx = 0, size_buf = 3, max_size = 3\<rparr> 5 [2, 0, 1]
     = Inr [12, 10, 11]"
proof -
  let ?b = "\<lparr>transitions = [10, 11, 12::nat], current_idx = 0, size_buf = 3, max_size = 3\<rparr>"
  have h1: "store_inv ?b" by (simp add: store_inv_def)
  have h2: "1 \<le> size_buf ?b" "(0::int) \<le> 5" by simp_all
  have h3: "mset [2, 0, 1] = mset [0..size_buf ?b - 1]" by (simp add: upto_0_2)
  from uniform_sample_distinct[OF h1 h2 h3]
  obtain indices where
    "np_random_choice (size_buf ?b) (min 5 (size_buf ?b)) [2, 0, 1] = Inr indices"
    "sample ?b 5 [2, 0, 1] = Inr (map (\<lambda>i. transitions ?b ! nat i) indices)" by blast
  then show ?thesis using h1 h3 by (auto simp: np_random_choice_def)
qed

theorem uniform_sample_empty_fails_witness:
  "store_inv (experience_replay_init 3 :: nat experience_replay) \<and>
   size_buf (experience_replay_init 3 :: nat experience_replay) = 0 \<and> (0::int) < 1 \<and>
   sample (experience_replay_init 3 :: nat experience_replay) 1 [] = Inl IndexError"
proof -
  let ?b = "experience_replay_init 3 :: nat experience_replay"
  have h: "store_inv ?b" "size_buf ?b = 0" "(0::int) < 1"
    by (simp_all add: store_inv_init) (simp add: experience_replay_init_def)
  from uniform_sample_empty_fails[OF h] h show ?thesis by simp
qed

text \<open>
  Claim C8 fails as it is stated. A fresh buffer of capacity 3 holds no transition, and
  \<^verbatim>\<open>sample(1)\<close> on it ends in numpy's IndexError, which is not the EmptyBuffer error
  that the claim names.
\<close>

theorem uniform_sample_empty_raises_index_error:
  "size_buf (experience_replay_init 3 :: nat experience_replay) = 0 \<and> (0::int) < 1 \<and>
   sample (experience_replay_init 3 :: nat experience_replay) 1 [] = Inl IndexError \<and>
   sample (experience_replay_init 3 :: nat experience_replay) 1 [] \<noteq> Inl EmptyBuffer"
  by (simp add: sample_def np_random_choice_def experience_replay_init_def)

theorem padding_and_clone_witness:
  "(1::int) \<le> 3 \<and> (1::int) \<le> 2 \<and>
   (\<exists>b. add_transitions (experience_replay_init 3) [10, 11::nat] = Inr b \<and>
        (\<exists>i. np_index (transitions b) 2 = Inr i \<and> transitions b ! i = 10) \<and>
        (\<exists>c. clone_buffer b 2 = Inr c \<and> size_buf c = 2))"
proof -
  have h: "(1::int) \<le> 3" "(1::int) \<le> 2" by simp_all
  from padding_and_clone[OF h, of 10 "[11::nat]"]
  obtain b where b: "add_transitions (experience_replay_init 3) [10, 11::nat] = Inr b"
    "max_size b = 3"
    "\<forall>j. size_buf b \<le> j \<and> j < 3 \<longrightarrow> (\<exists>i. np_index (transitions b) j = Inr i \<and> transitions b ! i = 10)"
    "\<exists>c. clone_buffer b 2 = Inr c \<and> size_buf c = min (max_size b) 2"
    by blast
  have "size_buf b = 2"
    using b(1) by (simp add: add_transition_def experience_replay_init_def np_index_def Let_def) auto
  then have "\<exists>i. np_index (transitions b) 2 = Inr i \<and> transitions b ! i = 10"
    using b(3) by simp
  then show ?thesis using b by auto
qed

section \<open>Properties of the segment trees\<close>

lemma is_power_of_two_iff: "is_power_of_two n \<longleftrightarrow> (\<exists>k. n = 2 ^ k)"
proof (induction n rule: is_power_of_two.induct)
  case (1 n)
  show ?case
  proof (cases "n \<le> 1")
    case True
    show ?thesis
    proof (cases "n = 1")
      case True
      then have "n = 2 ^ 0" by simp
      then have "\<exists>k. n = 2 ^ k" by blast
      moreover have "is_power_of_two n" using True by (subst is_power_of_two.simps) simp
      ultimately show ?thesis by blast
    next
      case False
      then have "n = 0" using \<open>n \<le> 1\<close> by simp
      then show ?thesis by (subst is_power_of_two.simps) simp
    qed
  next
    case False
    then have IH: "is_power_of_two (n div 2) \<longleftrightarrow> (\<exists>k. n div 2 = 2 ^ k)"
      using 1 by simp
    have eq: "is_power_of_two n \<longleftrightarrow> even n \<and> is_power_of_two (n div 2)"
      using False by (subst is_power_of_two.simps) simp
    show ?thesis
    proof
      assume "is_power_of_two n"
      then obtain k where k: "even n" "n div 2 = 2 ^ k" using eq IH by blast
      then have "n = 2 ^ Suc k" by auto
      then show "\<exists>k. n = 2 ^ k" by blast
    next
      assume "\<exists>k. n = 2 ^ k"
      then obtain k where k: "n = 2 ^ k" by blast
      then have "k \<noteq> 0" using False by (cases k) auto
      then obtain k' where k': "k = Suc k'" by (cases k) auto
      then have "even n" "n div 2 = 2 ^ k'" using k by simp_all
      then show "is_power_of_two n" using eq IH by blast
    qed
  qed
qed

lemma st_recompute_length: "length (st_recompute f i ns) = length ns"
proof (induction f i ns rule: st_recompute.induct)
  case (1 f i ns)
  then show ?case by (subst st_recompute.simps) simp
qed

lemma st_recompute_above: "i < j \<Longrightarrow> st_recompute f i ns ! j = ns ! j"
proof (induction f i ns rule: st_recompute.induct)
  case (1 f i ns)
  show ?case
  proof (cases "i = 0")
    case True
    then show ?thesis by (subst st_recompute.simps) simp
  next
    case False
    have "st_recompute f (i div 2) (ns[i := f (ns ! (2 * i)) (ns ! (2 * i + 1))]) ! j
            = (ns[i := f (ns ! (2 * i)) (ns ! (2 * i + 1))]) ! j"
      using 1 False by simp
    then show ?thesis using False 1(2) by (subst st_recompute.simps) simp
  qed
qed

lemma st_recompute_good:
  assumes "\<forall>j\<in>{1..<c}. (\<forall>m. j \<noteq> i div 2 ^ m) \<longrightarrow> ns ! j = f (ns ! (2 * j)) (ns ! (2 * j + 1))"
    and "i < c" "2 * c \<le> length ns"
  shows "\<forall>j\<in>{1..<c}. st_recompute f i ns ! j =
           f (st_recompute f i ns ! (2 * j)) (st_recompute f i ns ! (2 * j + 1))"
  using assms
proof (induction f i ns rule: st_recompute.induct)
  case (1 f i ns)
  show ?case
  proof (cases "i = 0")
    case True
    have "\<forall>j\<in>{1..<c}. \<forall>m. j \<noteq> i div 2 ^ m" using True by simp
    then have "\<forall>j\<in>{1..<c}. ns ! j = f (ns ! (2 * j)) (ns ! (2 * j + 1))"
      using 1(2) by blast
    moreover have "st_recompute f i ns = ns" using True by (subst st_recompute.simps) simp
    ultimately show ?thesis by simp
  next
    case False
    let ?ns' = "ns[i := f (ns ! (2 * i)) (ns ! (2 * i + 1))]"
    have il: "i < length ns" using 1(3,4) by simp
    have pre: "\<forall>j\<in>{1..<c}. (\<forall>m. j \<noteq> (i div 2) div 2 ^ m) \<longrightarrow>
                 ?ns' ! j = f (?ns' ! (2 * j)) (?ns' ! (2 * j + 1))"
    proof (intro ballI impI)
      fix j assume j: "j \<in> {1..<c}" and anc: "\<forall>m. j \<noteq> (i div 2) div 2 ^ m"
      have jh: "j \<noteq> i div 2" using anc[rule_format, of 0] by simp
      then have ch: "2 * j \<noteq> i" "2 * j + 1 \<noteq> i" by auto
      show "?ns' ! j = f (?ns' ! (2 * j)) (?ns' ! (2 * j + 1))"
      proof (cases "j = i")
        case True
        then show ?thesis using il False by simp
      next
        case ji: False
        have "\<forall>m. j \<noteq> i div 2 ^ m"
        proof
          fix m show "j \<noteq> i div 2 ^ m"
          proof (cases m)
            case 0
            then show ?thesis using ji by simp
          next
            case (Suc m')
            have "i div 2 ^ Suc m' = (i div 2) div 2 ^ m'"
              by (simp add: div_mult2_eq)
            then show ?thesis using anc Suc by metis
          qed
        qed
        then have "ns ! j = f (ns ! (2 * j)) (ns ! (2 * j + 1))"
          using 1(2) j by blast
        then show ?thesis using ji ch by simp
      qed
    qed
    have "\<forall>j\<in>{1..<c}. st_recompute f (i div 2) ?ns' ! j =
           f (st_recompute f (i div 2) ?ns' ! (2 * j)) (st_recompute f (i div 2) ?ns' ! (2 * j + 1))"
      using 1(1)[OF False pre] 1(3,4) by simp
    moreover have "st_recompute f i ns = st_recompute f (i div 2) ?ns'"
      using False by (subst st_recompute.simps) simp
    ultimately show ?thesis by simp
  qed
qed

lemma st_set_facts:
  assumes "tree_inv f t" "0 \<le> idx" "idx < int (capacity t)"
  shows "\<exists>t'. st_set f t idx v = Inr t' \<and> tree_inv f t' \<and> capacity t' = capacity t \<and>
           (\<forall>j<capacity t. st_leaf t' j = (if j = nat idx then v else st_leaf t j))"
proof -
  let ?c = "capacity t"
  let ?leaf = "?c + nat idx"
  let ?upd = "(nodes t)[?leaf := v]"
  let ?rec = "st_recompute f (?leaf div 2) ?upd"
  let ?t' = "t\<lparr>nodes := ?rec\<rparr>"
  have len: "length (nodes t) = 2 * ?c" and p2: "is_power_of_two ?c"
    and good: "\<forall>i\<in>{1..<?c}. nodes t ! i = f (nodes t ! (2 * i)) (nodes t ! (2 * i + 1))"
    using assms(1) by (auto simp: tree_inv_def)
  have lf: "?c \<le> ?leaf" "?leaf < 2 * ?c" using assms(2,3) by auto
  have set: "st_set f t idx v = Inr ?t'"
    using assms(2,3) by (simp add: st_set_def Let_def)
  have pre: "\<forall>j\<in>{1..<?c}. (\<forall>m. j \<noteq> (?leaf div 2) div 2 ^ m) \<longrightarrow>
               ?upd ! j = f (?upd ! (2 * j)) (?upd ! (2 * j + 1))"
  proof (intro ballI impI)
    fix j assume j: "j \<in> {1..<?c}" and anc: "\<forall>m. j \<noteq> (?leaf div 2) div 2 ^ m"
    have "j \<noteq> ?leaf div 2" using anc[rule_format, of 0] by simp
    then have "2 * j \<noteq> ?leaf" "2 * j + 1 \<noteq> ?leaf" by auto
    moreover have "j \<noteq> ?leaf" using j lf by auto
    ultimately show "?upd ! j = f (?upd ! (2 * j)) (?upd ! (2 * j + 1))"
      using good j by simp
  qed
  have "?leaf div 2 < ?c" using lf by auto
  from st_recompute_good[OF pre this] len
  have good': "\<forall>j\<in>{1..<?c}. ?rec ! j = f (?rec ! (2 * j)) (?rec ! (2 * j + 1))"
    by simp
  have inv': "tree_inv f ?t'"
    using p2 len good' by (simp add: tree_inv_def st_recompute_length)
  have leaves: "\<forall>j<?c. st_leaf ?t' j = (if j = nat idx then v else st_leaf t j)"
  proof (intro allI impI)
    fix j assume j: "j < ?c"
    have "?leaf div 2 < ?c + j" using lf j by auto
    then have "?rec ! (?c + j) = ?upd ! (?c + j)" by (rule st_recompute_above)
    then show "st_leaf ?t' j = (if j = nat idx then v else st_leaf t j)"
      using len j lf by (auto simp: st_leaf_def)
  qed
  show ?thesis using set inv' leaves by auto
qed

lemma sum_lessThan_add:
  fixes g :: "nat \<Rightarrow> real"
  shows "(\<Sum>j<a + b. g j) = (\<Sum>j<a. g j) + (\<Sum>j<b. g (a + j))"
  by (induction b) (simp_all add: add.assoc[symmetric])

lemma sum_tree_level:
  fixes t :: "real segment_tree"
  assumes "tree_inv (+) t" "capacity t = 2 ^ (d + h)" "2 ^ d \<le> i" "i < 2 ^ (d + 1)"
  shows "nodes t ! i = (\<Sum>j<2 ^ h. nodes t ! (i * 2 ^ h + j))"
  using assms(2-)
proof (induction h arbitrary: d i)
  case 0
  then show ?case by simp
next
  case (Suc h)
  have cap: "capacity t = 2 ^ (Suc d + h)" using Suc.prems(1) by simp
  have "(2::nat) ^ (d + 1) \<le> 2 ^ (d + Suc h)" by (rule power_increasing) simp_all
  then have "i < capacity t"
    using Suc.prems(1,3) by (simp only: less_le_trans)
  moreover have "(0::nat) < 2 ^ d" by simp
  then have "0 < i" using Suc.prems(2) by (rule less_le_trans)
  ultimately have "i \<in> {1..<capacity t}" by simp
  then have node: "nodes t ! i = nodes t ! (2 * i) + nodes t ! (2 * i + 1)"
    using assms(1) by (simp add: tree_inv_def)
  have l: "nodes t ! (2 * i) = (\<Sum>j<2 ^ h. nodes t ! (2 * i * 2 ^ h + j))"
    using Suc.IH[OF cap, of "2 * i"] Suc.prems by simp
  have r: "nodes t ! (2 * i + 1) = (\<Sum>j<2 ^ h. nodes t ! ((2 * i + 1) * 2 ^ h + j))"
    using Suc.IH[OF cap, of "2 * i + 1"] Suc.prems by simp
  have "(\<Sum>j<2 ^ Suc h. nodes t ! (i * 2 ^ Suc h + j))
          = (\<Sum>j<2 ^ h + 2 ^ h. nodes t ! (i * 2 ^ Suc h + j))" by (simp add: mult_2)
  also have "\<dots> = (\<Sum>j<2 ^ h. nodes t ! (i * 2 ^ Suc h + j))
                 + (\<Sum>j<2 ^ h. nodes t ! (i * 2 ^ Suc h + (2 ^ h + j)))"
    by (simp only: sum_lessThan_add)
  finally show ?case using node l r by (simp add: algebra_simps)
qed

lemma sum_tree_root:
  fixes t :: "real segment_tree"
  assumes "tree_inv (+) t"
  shows "st_root t = (\<Sum>j<capacity t. st_leaf t j)"
proof -
  obtain k where k: "capacity t = 2 ^ k"
    using assms by (auto simp: tree_inv_def is_power_of_two_iff)
  have "nodes t ! 1 = (\<Sum>j<2 ^ k. nodes t ! (1 * 2 ^ k + j))"
    by (rule sum_tree_level[OF assms, of 0 k]) (simp_all add: k)
  then show ?thesis by (simp add: st_root_def st_leaf_def k)
qed

lemma xle_refl: "xle x x"
  by (cases x) simp_all

lemma xle_trans: "xle x y \<Longrightarrow> xle y z \<Longrightarrow> xle x z"
  by (cases x; cases y; cases z) simp_all

lemma xmin_cases: "xmin x y = x \<or> xmin x y = y"
  by (cases x; cases y) (simp_all add: min_def)

lemma xmin_le: "xle (xmin x y) x" "xle (xmin x y) y"
  by (cases x; cases y; simp)+

lemma min_tree_level:
  fixes t :: "xreal segment_tree"
  assumes "tree_inv xmin t" "capacity t = 2 ^ (d + h)" "2 ^ d \<le> i" "i < 2 ^ (d + 1)"
  shows "(\<exists>j<2 ^ h. nodes t ! i = nodes t ! (i * 2 ^ h + j)) \<and>
         (\<forall>j<2 ^ h. xle (nodes t ! i) (nodes t ! (i * 2 ^ h + j)))"
  using assms(2-)
proof (induction h arbitrary: d i)
  case 0
  then show ?case by (simp add: xle_refl)
next
  case (Suc h)
  have cap: "capacity t = 2 ^ (Suc d + h)" using Suc.prems(1) by simp
  have "(2::nat) ^ (d + 1) \<le> 2 ^ (d + Suc h)" by (rule power_increasing) simp_all
  then have "i < capacity t"
    using Suc.prems(1,3) by (simp only: less_le_trans)
  moreover have "(0::nat) < 2 ^ d" by simp
  then have "0 < i" using Suc.prems(2) by (rule less_le_trans)
  ultimately have "i \<in> {1..<capacity t}" by simp
  then have node: "nodes t ! i = xmin (nodes t ! (2 * i)) (nodes t ! (2 * i + 1))"
    using assms(1) by (simp add: tree_inv_def)
  have l: "(\<exists>j<2 ^ h. nodes t ! (2 * i) = nodes t ! (2 * i * 2 ^ h + j)) \<and>
         (\<forall>j<2 ^ h. xle (nodes t ! (2 * i)) (nodes t ! (2 * i * 2 ^ h + j)))"
    using Suc.IH[OF cap, of "2 * i"] Suc.prems by simp
  have r: "(\<exists>j<2 ^ h. nodes t ! (2 * i + 1) = nodes t ! ((2 * i + 1) * 2 ^ h + j)) \<and>
         (\<forall>j<2 ^ h. xle (nodes t ! (2 * i + 1)) (nodes t ! ((2 * i + 1) * 2 ^ h + j)))"
    using Suc.IH[OF cap, of "2 * i + 1"] Suc.prems by simp
  have il: "\<And>j. 2 * i * 2 ^ h + j = i * 2 ^ Suc h + j" by simp
  have ir: "\<And>j. (2 * i + 1) * 2 ^ h + j = i * 2 ^ Suc h + (2 ^ h + j)"
    by (simp add: algebra_simps)
  have ex: "\<exists>j<2 ^ Suc h. nodes t ! i = nodes t ! (i * 2 ^ Suc h + j)"
  proof -
    from xmin_cases[of "nodes t ! (2 * i)" "nodes t ! (2 * i + 1)"]
    show ?thesis
    proof
      assume "xmin (nodes t ! (2 * i)) (nodes t ! (2 * i + 1)) = nodes t ! (2 * i)"
      then obtain j where "j < 2 ^ h" "nodes t ! i = nodes t ! (i * 2 ^ Suc h + j)"
        using l node il by metis
      moreover have "j < 2 ^ Suc h" using calculation(1) by simp
      ultimately show ?thesis by blast
    next
      assume "xmin (nodes t ! (2 * i)) (nodes t ! (2 * i + 1)) = nodes t ! (2 * i + 1)"
      then obtain j where j: "j < 2 ^ h" "nodes t ! i = nodes t ! (i * 2 ^ Suc h + (2 ^ h + j))"
        using r node ir by metis
      have "2 ^ h + j < 2 ^ Suc h" using j(1) by simp
      then show ?thesis using j(2) by blast
    qed
  qed
  have all: "\<forall>j<2 ^ Suc h. xle (nodes t ! i) (nodes t ! (i * 2 ^ Suc h + j))"
  proof (intro allI impI)
    fix j :: nat assume j: "j < 2 ^ Suc h"
    show "xle (nodes t ! i) (nodes t ! (i * 2 ^ Suc h + j))"
    proof (cases "j < 2 ^ h")
      case True
      then have "xle (nodes t ! (2 * i)) (nodes t ! (i * 2 ^ Suc h + j))"
        using l il by metis
      then show ?thesis using node xmin_le(1) xle_trans by metis
    next
      case False
      then obtain j' where j': "j = 2 ^ h + j'" "j' < 2 ^ h"
        using j by (metis add_diff_inverse_nat mult_2 nat_add_left_cancel_less power_Suc)
      then have "xle (nodes t ! (2 * i + 1)) (nodes t ! (i * 2 ^ Suc h + j))"
        using r ir by metis
      then show ?thesis using node xmin_le(2) xle_trans by metis
    qed
  qed
  show ?case using ex all by blast
qed

lemma min_tree_root:
  fixes t :: "xreal segment_tree"
  assumes "tree_inv xmin t"
  shows "(\<exists>j<capacity t. st_root t = st_leaf t j) \<and>
         (\<forall>j<capacity t. xle (st_root t) (st_leaf t j))"
proof -
  obtain k where k: "capacity t = 2 ^ k"
    using assms by (auto simp: tree_inv_def is_power_of_two_iff)
  have "(\<exists>j<2 ^ k. nodes t ! 1 = nodes t ! (1 * 2 ^ k + j)) \<and>
         (\<forall>j<2 ^ k. xle (nodes t ! 1) (nodes t ! (1 * 2 ^ k + j)))"
    by (rule min_tree_level[OF assms, of 0 k]) (simp_all add: k)
  then show ?thesis by (simp add: st_root_def st_leaf_def k)
qed

lemma st_descend_leaf:
  fixes t :: "real segment_tree"
  assumes "tree_inv (+) t" "0 < node" "node < 2 * capacity t"
    and "0 \<le> target" "target < nodes t ! node"
  shows "st_descend t node target < capacity t \<and> 0 < st_leaf t (st_descend t node target)"
  using assms
proof (induction t node target rule: st_descend.induct)
  case (1 t node target)
  note inv = \<open>tree_inv (+) t\<close>
  show ?case
  proof (cases "node < capacity t")
    case True
    then have "node \<in> {1..<capacity t}" using \<open>0 < node\<close> by simp
    then have nd: "nodes t ! node = nodes t ! (2 * node) + nodes t ! (2 * node + 1)"
      using inv by (simp add: tree_inv_def)
    have pos: "0 < 2 * node" "0 < 2 * node + 1" "2 * node < 2 * capacity t"
      "2 * node + 1 < 2 * capacity t" using True \<open>0 < node\<close> by simp_all
    have guard: "0 < node \<and> node < capacity t" using True \<open>0 < node\<close> by simp
    show ?thesis
    proof (cases "target < nodes t ! (2 * node)")
      case left: True
      have "st_descend t node target = st_descend t (2 * node) target"
        using guard left by (subst st_descend.simps) simp
      moreover have "st_descend t (2 * node) target < capacity t \<and>
                     0 < st_leaf t (st_descend t (2 * node) target)"
        using "1.IH"(1)[OF guard left inv pos(1) pos(3) \<open>0 \<le> target\<close> left] .
      ultimately show ?thesis by simp
    next
      case right: False
      have "st_descend t node target =
              st_descend t (2 * node + 1) (target - nodes t ! (2 * node))"
        using guard right by (subst st_descend.simps) simp
      moreover have tr: "0 \<le> target - nodes t ! (2 * node)"
        "target - nodes t ! (2 * node) < nodes t ! (2 * node + 1)"
        using right nd \<open>target < nodes t ! node\<close> by simp_all
      have "st_descend t (2 * node + 1) (target - nodes t ! (2 * node)) < capacity t \<and>
                 0 < st_leaf t (st_descend t (2 * node + 1) (target - nodes t ! (2 * node)))"
        using "1.IH"(2)[OF guard right inv pos(2) pos(4) tr] .
      ultimately show ?thesis by simp
    qed
  next
    case False
    then have "st_descend t node target = node - capacity t"
      by (subst st_descend.simps) simp
    then show ?thesis
      using False \<open>node < 2 * capacity t\<close> \<open>0 \<le> target\<close> \<open>target < nodes t ! node\<close>
      by (simp add: st_leaf_def)
  qed
qed

section \<open>Properties of the prioritized buffer\<close>

lemma st_capacity_loop_facts:
  assumes "is_power_of_two (nat c)" "0 < c"
  shows "is_power_of_two (nat (st_capacity_loop c m)) \<and> 0 < st_capacity_loop c m \<and>
         m \<le> st_capacity_loop c m"
  using assms
proof (induction c m rule: st_capacity_loop.induct)
  case (1 c m)
  show ?case
  proof (cases "c < m")
    case True
    have eq: "st_capacity_loop c m = st_capacity_loop (c * 2) m"
      using True 1(3) by (subst st_capacity_loop.simps) simp
    obtain k where "nat c = 2 ^ k" using 1(2) by (auto simp: is_power_of_two_iff)
    then have "nat (c * 2) = 2 ^ Suc k" using 1(3) by (simp add: nat_mult_distrib)
    then have "is_power_of_two (nat (c * 2))" unfolding is_power_of_two_iff by blast
    then show ?thesis using 1(1) True 1(3) eq by simp
  next
    case False
    then have "st_capacity_loop c m = c" by (subst st_capacity_loop.simps) simp
    then show ?thesis using False 1(2,3) by simp
  qed
qed

lemma is_power_of_two_1: "is_power_of_two (Suc 0)"
  by (subst is_power_of_two.simps) simp

lemma prioritized_init_inv:
  "\<exists>b. prioritized_init m a be = Inr b \<and> prioritized_inv b \<and> size_buf b = 0 \<and>
       max_size b = m \<and> alpha b = a \<and> beta b = be \<and> max_priority b = 1"
proof -
  let ?c = "st_capacity_loop 1 m"
  have c: "is_power_of_two (nat ?c)" "0 < ?c" "m \<le> ?c"
    using st_capacity_loop_facts[of 1 m] by (simp_all add: is_power_of_two_1)
  let ?s = "\<lparr>capacity = nat ?c, nodes = replicate (2 * nat ?c) (0::real)\<rparr>"
  let ?mn = "\<lparr>capacity = nat ?c, nodes = replicate (2 * nat ?c) PInf\<rparr>"
  let ?b = "\<lparr>transitions = [], current_idx = 0, size_buf = 0, max_size = m,
             alpha = a, beta = be, max_priority = 1, st_sum = ?s, st_min = ?mn\<rparr>"
  have "prioritized_init m a be = Inr ?b"
    using c by (simp add: prioritized_init_def st_new_def Let_def)
  moreover have "tree_inv (+) ?s" "tree_inv xmin ?mn"
    using c by (simp_all add: tree_inv_def)
  moreover have "leaves_aligned ?b"
    by (simp add: leaves_aligned_def st_leaf_def)
  moreover have "store_inv ?b" by (simp add: store_inv_def)
  ultimately have "prioritized_init m a be = Inr ?b \<and> prioritized_inv ?b"
    using c by (simp add: prioritized_inv_def)
  then show ?thesis by (intro exI[of _ ?b]) simp
qed

lemma py_pow_pos: "0 < x \<Longrightarrow> \<exists>v. py_pow x y = Inr v \<and> 0 < v \<and> v = (if y = 0 then 1 else x powr y)"
  by (simp add: py_pow_def)

lemma add_transition_frame:
  assumes "add_transition b t = Inr b'"
  shows "\<exists>ts s c. b' = b\<lparr>transitions := ts, size_buf := s, current_idx := c\<rparr>"
proof (cases "size_buf b = 0")
  case True
  then show ?thesis
    using assms by (auto simp: add_transition_def Let_def split: sum.splits if_splits)
next
  case False
  then have "\<exists>ts s c. b' = b\<lparr>transitions := ts, size_buf := s, current_idx := c\<rparr>"
    using assms by (auto simp: add_transition_def Let_def split: sum.splits if_splits)
  then show ?thesis .
qed

lemma prioritized_add_transition_facts:
  assumes "prioritized_inv b" "1 \<le> max_size b"
  shows "\<exists>b' v. prioritized_add_transition b t = Inr b' \<and> prioritized_inv b' \<and>
           py_pow (max_priority b) (alpha b) = Inr v \<and>
           capacity (st_sum b') = capacity (st_sum b) \<and>
           capacity (st_min b') = capacity (st_min b) \<and>
           (\<forall>j<capacity (st_sum b). st_leaf (st_sum b') j =
                (if j = nat (current_idx b) then v else st_leaf (st_sum b) j)) \<and>
           (\<forall>j<capacity (st_sum b). st_leaf (st_min b') j =
                (if j = nat (current_idx b) then Fin v else st_leaf (st_min b) j)) \<and>
           0 \<le> current_idx b \<and> current_idx b < int (capacity (st_sum b)) \<and>
           transitions b' ! nat (current_idx b) = t \<and>
           size_buf b' = min (size_buf b + 1) (max_size b) \<and>
           current_idx b' = (current_idx b + 1) mod max_size b \<and>
           max_size b' = max_size b \<and> max_priority b' = max_priority b \<and>
           alpha b' = alpha b \<and> beta b' = beta b"
proof -
  let ?idx = "current_idx b"
  let ?c = "capacity (st_sum b)"
  have inv: "store_inv b" "tree_inv (+) (st_sum b)" "tree_inv xmin (st_min b)"
    "capacity (st_min b) = ?c" "max_size b \<le> int ?c" "1 \<le> max_priority b" "leaves_aligned b"
    using assms(1) by (auto simp: prioritized_inv_def)
  obtain b1 where b1: "add_transition b t = Inr b1"
    "size_buf b1 = min (size_buf b + 1) (max_size b)"
    "current_idx b1 = (?idx + 1) mod max_size b" "max_size b1 = max_size b"
    "transitions b1 ! nat ?idx = t" "store_inv b1"
    using add_transition_store_inv[OF inv(1) assms(2), of t] by blast
  obtain ts s c where "b1 = b\<lparr>transitions := ts, size_buf := s, current_idx := c\<rparr>"
    using add_transition_frame[OF b1(1)] by blast
  then have same: "st_sum b1 = st_sum b" "st_min b1 = st_min b" "max_priority b1 = max_priority b"
    "alpha b1 = alpha b" "beta b1 = beta b"
    by simp_all
  have key: "0 \<le> ?idx" "?idx < max_size b" "?idx < size_buf b1" "size_buf b \<le> size_buf b1"
    using inv(1) assms(2) b1(2) by (auto simp: store_inv_def)
  have key4: "\<And>i. int i < size_buf b1 \<Longrightarrow> i \<noteq> nat ?idx \<Longrightarrow> int i < size_buf b"
    using inv(1) assms(2) b1(2) by (auto simp: store_inv_def)
  have idc: "?idx < int ?c" using key(2) inv(5) by simp
  obtain v where v: "py_pow (max_priority b) (alpha b) = Inr v" "0 < v"
    using py_pow_pos[of "max_priority b" "alpha b"] inv(6) by auto
  obtain mn where mn: "st_set xmin (st_min b) ?idx (Fin v) = Inr mn" "tree_inv xmin mn"
    "capacity mn = ?c"
    "\<forall>j<?c. st_leaf mn j = (if j = nat ?idx then Fin v else st_leaf (st_min b) j)"
    using st_set_facts[OF inv(3) key(1), of "Fin v"] idc inv(4) by auto
  obtain sm where sm: "st_set (+) (st_sum b) ?idx v = Inr sm" "tree_inv (+) sm"
    "capacity sm = ?c"
    "\<forall>j<?c. st_leaf sm j = (if j = nat ?idx then v else st_leaf (st_sum b) j)"
    using st_set_facts[OF inv(2) key(1) idc, of v] by auto
  let ?b' = "b1\<lparr>st_min := mn, st_sum := sm\<rparr>"
  have run: "prioritized_add_transition b t = Inr ?b'"
    by (simp add: prioritized_add_transition_def Let_def b1(1) same v(1) mn(1) sm(1))
  have al: "leaves_aligned ?b'"
    unfolding leaves_aligned_def
  proof
    fix i assume "i \<in> {0..<capacity (st_sum ?b')}"
    then have i: "i < ?c" using sm(3) by simp
    have old: "if int i < size_buf b
        then 0 < st_leaf (st_sum b) i \<and> st_leaf (st_min b) i = Fin (st_leaf (st_sum b) i)
        else st_leaf (st_sum b) i = 0 \<and> st_leaf (st_min b) i = PInf"
      using inv(7) i by (simp add: leaves_aligned_def)
    show "if int i < size_buf ?b'
        then 0 < st_leaf (st_sum ?b') i \<and> st_leaf (st_min ?b') i = Fin (st_leaf (st_sum ?b') i)
        else st_leaf (st_sum ?b') i = 0 \<and> st_leaf (st_min ?b') i = PInf"
    proof (cases "i = nat ?idx")
      case True
      then have "int i < size_buf b1" using key(1,3) by simp
      then show ?thesis using True i mn(4) sm(4) v(2) by simp
    next
      case False
      then have "st_leaf sm i = st_leaf (st_sum b) i" "st_leaf mn i = st_leaf (st_min b) i"
        using i mn(4) sm(4) by simp_all
      moreover have "int i < size_buf b1 \<longleftrightarrow> int i < size_buf b"
        using key4[of i] False key(4) by auto
      ultimately show ?thesis using old by simp
    qed
  qed
  have "store_inv ?b'" using b1(6) by (simp add: store_inv_def)
  then have inv': "prioritized_inv ?b'"
    using al mn(2,3) sm(2,3) inv(5,6) b1(4) same by (simp add: prioritized_inv_def)
  have "prioritized_add_transition b t = Inr ?b' \<and> prioritized_inv ?b' \<and>
           py_pow (max_priority b) (alpha b) = Inr v \<and>
           capacity (st_sum ?b') = capacity (st_sum b) \<and>
           capacity (st_min ?b') = capacity (st_min b) \<and>
           (\<forall>j<capacity (st_sum b). st_leaf (st_sum ?b') j =
                (if j = nat (current_idx b) then v else st_leaf (st_sum b) j)) \<and>
           (\<forall>j<capacity (st_sum b). st_leaf (st_min ?b') j =
                (if j = nat (current_idx b) then Fin v else st_leaf (st_min b) j)) \<and>
           0 \<le> current_idx b \<and> current_idx b < int (capacity (st_sum b)) \<and>
           transitions ?b' ! nat (current_idx b) = t \<and>
           size_buf ?b' = min (size_buf b + 1) (max_size b) \<and>
           current_idx ?b' = (current_idx b + 1) mod max_size b \<and>
           max_size ?b' = max_size b \<and> max_priority ?b' = max_priority b \<and>
           alpha ?b' = alpha b \<and> beta ?b' = beta b"
    using run inv' v(1) sm(3,4) mn(3,4) inv(4) key(1) idc b1(2,3,4,5) same by simp
  then show ?thesis by blast
qed

lemma update_round:
  assumes "prioritized_inv b" "valid_pair b (idx, p)"
  shows "\<exists>b2. (\<forall>rest. update_priorities_loop b ((idx, p) # rest) =
                        update_priorities_loop b2 rest) \<and>
           prioritized_inv b2 \<and> size_buf b2 = size_buf b \<and>
           max_priority b2 = max (max_priority b) p"
proof -
  let ?c = "capacity (st_sum b)"
  have inv: "store_inv b" "tree_inv (+) (st_sum b)" "tree_inv xmin (st_min b)"
    "capacity (st_min b) = ?c" "max_size b \<le> int ?c" "1 \<le> max_priority b" "leaves_aligned b"
    using assms(1) by (auto simp: prioritized_inv_def)
  have vp: "0 < p" "0 \<le> idx" "idx < size_buf b"
    using assms(2) by (simp_all add: valid_pair_def)
  have "size_buf b \<le> max_size b" using inv(1) vp by (auto simp: store_inv_def)
  then have idc: "idx < int ?c" using vp(3) inv(5) by simp
  obtain v where v: "py_pow p (alpha b) = Inr v" "0 < v"
    using py_pow_pos[OF vp(1), of "alpha b"] by auto
  obtain sm where sm: "st_set (+) (st_sum b) idx v = Inr sm" "tree_inv (+) sm"
    "capacity sm = ?c"
    "\<forall>j<?c. st_leaf sm j = (if j = nat idx then v else st_leaf (st_sum b) j)"
    using st_set_facts[OF inv(2) vp(2) idc, of v] by auto
  obtain mn where mn: "st_set xmin (st_min b) idx (Fin v) = Inr mn" "tree_inv xmin mn"
    "capacity mn = ?c"
    "\<forall>j<?c. st_leaf mn j = (if j = nat idx then Fin v else st_leaf (st_min b) j)"
    using st_set_facts[OF inv(3) vp(2), of "Fin v"] idc inv(4) by auto
  let ?b2 = "b\<lparr>st_sum := sm, st_min := mn, max_priority := max (max_priority b) p\<rparr>"
  have run: "update_priorities_loop b ((idx, p) # rest) = update_priorities_loop ?b2 rest" for rest
    using vp by (simp add: v(1) sm(1) mn(1))
  have al: "leaves_aligned ?b2"
    unfolding leaves_aligned_def
  proof
    fix i assume "i \<in> {0..<capacity (st_sum ?b2)}"
    then have i: "i < ?c" using sm(3) by simp
    have old: "if int i < size_buf b
        then 0 < st_leaf (st_sum b) i \<and> st_leaf (st_min b) i = Fin (st_leaf (st_sum b) i)
        else st_leaf (st_sum b) i = 0 \<and> st_leaf (st_min b) i = PInf"
      using inv(7) i by (simp add: leaves_aligned_def)
    show "if int i < size_buf ?b2
        then 0 < st_leaf (st_sum ?b2) i \<and> st_leaf (st_min ?b2) i = Fin (st_leaf (st_sum ?b2) i)
        else st_leaf (st_sum ?b2) i = 0 \<and> st_leaf (st_min ?b2) i = PInf"
    proof (cases "i = nat idx")
      case True
      then have "int i < size_buf b" using vp by simp
      then show ?thesis using True i mn(4) sm(4) v(2) by simp
    next
      case False
      then have "st_leaf sm i = st_leaf (st_sum b) i" "st_leaf mn i = st_leaf (st_min b) i"
        using i mn(4) sm(4) by simp_all
      then show ?thesis using old by simp
    qed
  qed
  have "store_inv ?b2" using inv(1) by (simp add: store_inv_def)
  then have "prioritized_inv ?b2"
    using al mn(2,3) sm(2,3) inv(5,6) by (simp add: prioritized_inv_def)
  then show ?thesis using run by (intro exI[of _ ?b2]) simp
qed

lemma update_invalid:
  assumes "\<not> valid_pair b (idx, p)"
  shows "update_priorities_loop b ((idx, p) # rest) = Inl (AssertionError, b)"
  using assms by (auto simp: valid_pair_def)

lemma update_loop_inv:
  assumes "prioritized_inv b"
  shows "(\<forall>b'. update_priorities_loop b ps = Inr b' \<longrightarrow> prioritized_inv b') \<and>
         (\<forall>e b'. update_priorities_loop b ps = Inl (e, b') \<longrightarrow> prioritized_inv b')"
  using assms
proof (induction ps arbitrary: b)
  case Nil
  then show ?case by simp
next
  case (Cons pr ps)
  obtain idx p where pr: "pr = (idx, p)" by (cases pr)
  show ?case
  proof (cases "valid_pair b (idx, p)")
    case True
    obtain b2 where b2: "update_priorities_loop b ((idx, p) # ps) = update_priorities_loop b2 ps"
      "prioritized_inv b2"
      using update_round[OF Cons.prems True] by blast
    show ?thesis using Cons.IH[OF b2(2)] b2(1) pr by simp
  next
    case False
    show ?thesis using update_invalid[OF False, of ps] Cons.prems pr by simp
  qed
qed

lemma reachable_inv: "reachable b \<Longrightarrow> prioritized_inv b"
proof (induction rule: reachable.induct)
  case (reachable_init m a be b)
  obtain b0 :: "'a prioritized_experience_replay"
    where "prioritized_init m a be = Inr b0" "prioritized_inv b0"
    using prioritized_init_inv[of m a be] by blast
  then show ?case using reachable_init by simp
next
  case (reachable_add b t b')
  have "1 \<le> max_size b"
  proof (rule ccontr)
    assume "\<not> 1 \<le> max_size b"
    moreover have "store_inv b" using reachable_add.IH by (simp add: prioritized_inv_def)
    ultimately have "add_transition b t = Inl IndexError"
      by (auto simp: store_inv_def add_transition_def np_index_def Let_def)
    then show False using reachable_add.hyps(2) by (simp add: prioritized_add_transition_def)
  qed
  then obtain b2 where "prioritized_add_transition b t = Inr b2" "prioritized_inv b2"
    using prioritized_add_transition_facts[OF reachable_add.IH, of t] by blast
  then show ?case using reachable_add.hyps(2) by simp
next
  case (reachable_update b indices priorities b')
  have "update_priorities_loop b (zip indices priorities) = Inr b'"
    using reachable_update.hyps(2) by (simp only: update_priorities_def)
  then show ?case using update_loop_inv[OF reachable_update.IH] by blast
next
  case (reachable_update_raised b indices priorities e b')
  have "update_priorities_loop b (zip indices priorities) = Inl (e, b')"
    using reachable_update_raised.hyps(2) by (simp only: update_priorities_def)
  then show ?case using update_loop_inv[OF reachable_update_raised.IH] by blast
next
  case (reachable_beta b be)
  have "store_inv (update_beta b be) = store_inv b"
    "leaves_aligned (update_beta b be) = leaves_aligned b"
    by (simp_all add: update_beta_def store_inv_def leaves_aligned_def)
  then show ?case
    using reachable_beta.IH by (simp add: prioritized_inv_def) (simp add: update_beta_def)
qed

lemma sum_list_upto:
  fixes g :: "int \<Rightarrow> real"
  shows "sum_list (map g [0..int n - 1]) = (\<Sum>j<n. g (int j))"
proof (induction n)
  case 0
  then show ?case by simp
next
  case (Suc n)
  have "[0..int (Suc n) - 1] = [0..int n - 1] @ [int n]"
    using upto_rec2[of 0 "int n"] by simp
  then have "sum_list (map g [0..int (Suc n) - 1])
               = sum_list (map g [0..int n - 1]) + g (int n)"
    by simp
  then show ?case using Suc by simp
qed

lemma foldr_upto_sum:
  fixes g :: "int \<Rightarrow> real"
  shows "foldr (+) (map g [0..int n - 1]) 0 = (\<Sum>j<n. g (int j))"
  using sum_list_upto[of g n] by (simp add: sum_list.eq_foldr)

lemma range_sum_is_root:
  assumes "prioritized_inv b" "1 \<le> size_buf b"
  shows "st_range_combine (+) 0 (st_sum b) 0 (size_buf b - 1) = Inr (st_root (st_sum b))"
proof -
  let ?c = "capacity (st_sum b)"
  let ?n = "nat (size_buf b)"
  have inv: "store_inv b" "tree_inv (+) (st_sum b)" "max_size b \<le> int ?c" "leaves_aligned b"
    using assms(1) by (auto simp: prioritized_inv_def)
  have sz: "size_buf b \<le> int ?c" "int ?n = size_buf b" "?n \<le> ?c"
    using inv(1,3) assms(2) by (auto simp: store_inv_def)
  have "size_buf b - 1 < int ?c" using sz(1) by simp
  then have "st_range_combine (+) 0 (st_sum b) 0 (size_buf b - 1)
          = Inr (foldr (+) (map (\<lambda>i. st_leaf (st_sum b) (nat i)) [0..size_buf b - 1]) 0)"
    by (simp add: st_range_combine_def)
  also have "foldr (+) (map (\<lambda>i. st_leaf (st_sum b) (nat i)) [0..size_buf b - 1]) 0
               = (\<Sum>j<?n. st_leaf (st_sum b) j)"
    using foldr_upto_sum[of "\<lambda>i. st_leaf (st_sum b) (nat i)" ?n]
    by (simp only: sz(2) nat_int)
  also have "(\<Sum>j<?n. st_leaf (st_sum b) j) = (\<Sum>j<?c. st_leaf (st_sum b) j)"
  proof (rule sum.mono_neutral_left)
    show "finite {..<?c}" by simp
    show "{..<?n} \<subseteq> {..<?c}" using sz(3) by auto
    show "\<forall>i\<in>{..<?c} - {..<?n}. st_leaf (st_sum b) i = 0"
    proof
      fix i assume "i \<in> {..<?c} - {..<?n}"
      then have "i < ?c" "\<not> int i < size_buf b" using sz(2) by auto
      then show "st_leaf (st_sum b) i = 0"
        using inv(4) by (auto simp: leaves_aligned_def)
    qed
  qed
  also have "\<dots> = st_root (st_sum b)" using sum_tree_root[OF inv(2)] by simp
  finally show ?thesis .
qed

lemma prioritized_add_transitionI:
  assumes "add_transition b t = Inr b1"
    and "py_pow (max_priority b1) (alpha b1) = Inr v"
    and "st_set xmin (st_min b1) (current_idx b) (Fin v) = Inr mn"
    and "st_set (+) (st_sum b1) (current_idx b) v = Inr s"
  shows "prioritized_add_transition b t = Inr (b1\<lparr>st_min := mn, st_sum := s\<rparr>)"
  using assms by (simp add: prioritized_add_transition_def Let_def)

lemma update_priorities_loop_step:
  assumes "0 < p" "0 \<le> idx" "idx < size_buf b"
    and "py_pow p (alpha b) = Inr v"
    and "st_set (+) (st_sum b) idx v = Inr s"
    and "st_set xmin (st_min b) idx (Fin v) = Inr mn"
  shows "update_priorities_loop b ((idx, p) # rest) =
           update_priorities_loop
             (b\<lparr>st_sum := s, st_min := mn, max_priority := max (max_priority b) p\<rparr>) rest"
  using assms by simp

lemma py_pow_1_1: "py_pow 1 1 = Inr 1"
  by (simp add: py_pow_def)

lemma py_pow_2_1: "py_pow 2 1 = Inr 2"
  by (simp add: py_pow_def)

lemma example_init:
  "prioritized_init 2 1 1 =
     Inr (\<lparr>transitions = [], current_idx = 0, size_buf = 0, max_size = 2,
           alpha = 1, beta = 1, max_priority = 1,
           st_sum = \<lparr>capacity = 2, nodes = [0, 0, 0, 0]\<rparr>,
           st_min = \<lparr>capacity = 2, nodes = [PInf, PInf, PInf, PInf]\<rparr>\<rparr>
          :: nat prioritized_experience_replay)"
  by code_simp

lemma example_add_1:
  "prioritized_add_transition
     (\<lparr>transitions = [], current_idx = 0, size_buf = 0, max_size = 2,
           alpha = 1, beta = 1, max_priority = 1,
           st_sum = \<lparr>capacity = 2, nodes = [0, 0, 0, 0]\<rparr>,
           st_min = \<lparr>capacity = 2, nodes = [PInf, PInf, PInf, PInf]\<rparr>\<rparr>
          :: nat prioritized_experience_replay) 10 = Inr example_buffer_1"
proof -
  let ?b = "\<lparr>transitions = [], current_idx = 0, size_buf = 0, max_size = 2,
           alpha = 1, beta = 1, max_priority = 1,
           st_sum = \<lparr>capacity = 2, nodes = [0, 0, 0, 0]\<rparr>,
           st_min = \<lparr>capacity = 2, nodes = [PInf, PInf, PInf, PInf]\<rparr>\<rparr>
          :: nat prioritized_experience_replay"
  let ?b1 = "\<lparr>transitions = [10, 10], current_idx = 1, size_buf = 1, max_size = 2,
           alpha = 1, beta = 1, max_priority = 1,
           st_sum = \<lparr>capacity = 2, nodes = [0, 0, 0, 0]\<rparr>,
           st_min = \<lparr>capacity = 2, nodes = [PInf, PInf, PInf, PInf]\<rparr>\<rparr>
          :: nat prioritized_experience_replay"
  have a: "add_transition ?b 10 = Inr ?b1" by code_simp
  have p: "py_pow (max_priority ?b1) (alpha ?b1) = Inr 1" by (simp add: py_pow_1_1)
  have m: "st_set xmin (st_min ?b1) (current_idx ?b) (Fin 1)
             = Inr \<lparr>capacity = 2, nodes = [PInf, Fin 1, Fin 1, PInf]\<rparr>" by code_simp
  have s: "st_set (+) (st_sum ?b1) (current_idx ?b) 1
             = Inr \<lparr>capacity = 2, nodes = [0, 1, 1, 0]\<rparr>" by code_simp
  show ?thesis using prioritized_add_transitionI[OF a p m s] by (simp add: example_buffer_1_def)
qed

lemma example_buffer_1_fields:
  "size_buf example_buffer_1 = 1" "max_size example_buffer_1 = 2"
  "current_idx example_buffer_1 = 1"
  "alpha example_buffer_1 = 1" "beta example_buffer_1 = 1" "max_priority example_buffer_1 = 1"
  "transitions example_buffer_1 = [10, 10]"
  "st_sum example_buffer_1 = \<lparr>capacity = 2, nodes = [0, 1, 1, 0]\<rparr>"
  "st_min example_buffer_1 = \<lparr>capacity = 2, nodes = [PInf, Fin 1, Fin 1, PInf]\<rparr>"
  by (simp_all add: example_buffer_1_def)

lemma example_buffer_fields:
  "size_buf example_buffer = 2" "max_size example_buffer = 2" "current_idx example_buffer = 0"
  "alpha example_buffer = 1" "beta example_buffer = 1" "max_priority example_buffer = 1"
  "transitions example_buffer = [10, 11]"
  "st_sum example_buffer = \<lparr>capacity = 2, nodes = [0, 2, 1, 1]\<rparr>"
  "st_min example_buffer = \<lparr>capacity = 2, nodes = [PInf, Fin 1, Fin 1, Fin 1]\<rparr>"
  by (simp_all add: example_buffer_def)

lemma example_add_2: "prioritized_add_transition example_buffer_1 11 = Inr example_buffer"
proof -
  let ?b1 = "\<lparr>transitions = [10, 11], current_idx = 0, size_buf = 2, max_size = 2,
           alpha = 1, beta = 1, max_priority = 1,
           st_sum = \<lparr>capacity = 2, nodes = [0, 1, 1, 0]\<rparr>,
           st_min = \<lparr>capacity = 2, nodes = [PInf, Fin 1, Fin 1, PInf]\<rparr>\<rparr>
          :: nat prioritized_experience_replay"
  have a: "add_transition example_buffer_1 11 = Inr ?b1" by code_simp
  have p: "py_pow (max_priority ?b1) (alpha ?b1) = Inr 1" by (simp add: py_pow_1_1)
  have m: "st_set xmin (st_min ?b1) (current_idx example_buffer_1) (Fin 1)
             = Inr \<lparr>capacity = 2, nodes = [PInf, Fin 1, Fin 1, Fin 1]\<rparr>" by code_simp
  have s: "st_set (+) (st_sum ?b1) (current_idx example_buffer_1) 1
             = Inr \<lparr>capacity = 2, nodes = [0, 2, 1, 1]\<rparr>" by code_simp
  show ?thesis using prioritized_add_transitionI[OF a p m s] by (simp add: example_buffer_def)
qed

lemma example_buffer_1_reachable: "reachable example_buffer_1"
  using reachable_add[OF reachable_init[OF example_init] example_add_1] .

lemma example_buffer_reachable: "reachable example_buffer"
  using reachable_add[OF example_buffer_1_reachable example_add_2] .

lemma example_update_round:
  "update_priorities_loop example_buffer ((0, 2) # rest) =
     update_priorities_loop example_buffer_updated rest"
proof -
  have p: "py_pow 2 (alpha example_buffer) = Inr 2"
    by (simp add: example_buffer_fields py_pow_2_1)
  have s: "st_set (+) (st_sum example_buffer) 0 2 = Inr \<lparr>capacity = 2, nodes = [0, 3, 2, 1]\<rparr>"
    by code_simp
  have m: "st_set xmin (st_min example_buffer) 0 (Fin 2)
             = Inr \<lparr>capacity = 2, nodes = [PInf, Fin 1, Fin 2, Fin 1]\<rparr>"
    by code_simp
  have "example_buffer\<lparr>st_sum := \<lparr>capacity = 2, nodes = [0, 3, 2, 1]\<rparr>,
          st_min := \<lparr>capacity = 2, nodes = [PInf, Fin 1, Fin 2, Fin 1]\<rparr>,
          max_priority := max (max_priority example_buffer) 2\<rparr> = example_buffer_updated"
    by (simp add: example_buffer_def example_buffer_updated_def)
  then show ?thesis
    using update_priorities_loop_step[OF _ _ _ p s m, of rest]
    by (simp add: example_buffer_fields)
qed

lemma example_update_raised:
  "update_priorities example_buffer [0, 1] [2, 0] = Inl (AssertionError, example_buffer_updated)"
proof -
  have "update_priorities example_buffer [0, 1] [2, 0]
          = update_priorities_loop example_buffer ((0, 2) # [(1, 0)])"
    by (simp add: update_priorities_def del: update_priorities_loop.simps)
  also have "\<dots> = update_priorities_loop example_buffer_updated [(1, 0)]"
    by (rule example_update_round)
  also have "\<dots> = Inl (AssertionError, example_buffer_updated)" by simp
  finally show ?thesis .
qed

lemma example_update_done:
  "update_priorities example_buffer [0] [2] = Inr example_buffer_updated"
proof -
  have "update_priorities example_buffer [0] [2]
          = update_priorities_loop example_buffer ((0, 2) # [])"
    by (simp add: update_priorities_def del: update_priorities_loop.simps)
  also have "\<dots> = update_priorities_loop example_buffer_updated []"
    by (rule example_update_round)
  finally show ?thesis by simp
qed

lemma valid_pair_size: "size_buf b2 = size_buf b \<Longrightarrow> valid_pair b2 pr = valid_pair b pr"
  by (simp add: valid_pair_def)

lemma update_prefix:
  assumes "prioritized_inv b" "k \<le> length ps" "\<forall>j<k. valid_pair b (ps ! j)"
  shows "\<exists>b'. update_priorities_loop b (take k ps) = Inr b' \<and>
           update_priorities_loop b ps = update_priorities_loop b' (drop k ps) \<and>
           size_buf b' = size_buf b"
  using assms
proof (induction k arbitrary: b ps)
  case 0
  then show ?case by simp
next
  case (Suc k)
  then obtain pr ps' where ps: "ps = pr # ps'" by (cases ps) auto
  obtain idx p where pr: "pr = (idx, p)" by (cases pr)
  have v0: "valid_pair b (idx, p)" using Suc.prems(3) ps pr by auto
  obtain b2 where b2: "\<forall>rest. update_priorities_loop b ((idx, p) # rest) =
                        update_priorities_loop b2 rest"
    "prioritized_inv b2" "size_buf b2 = size_buf b"
    using update_round[OF Suc.prems(1) v0] by blast
  have k: "k \<le> length ps'" using Suc.prems(2) ps by simp
  have v: "\<forall>j<k. valid_pair b2 (ps' ! j)"
  proof (intro allI impI)
    fix j assume "j < k"
    then have "valid_pair b (ps ! Suc j)" using Suc.prems(3) by simp
    then show "valid_pair b2 (ps' ! j)" using ps valid_pair_size[OF b2(3)] by simp
  qed
  obtain b' where b': "update_priorities_loop b2 (take k ps') = Inr b'"
    "update_priorities_loop b2 ps' = update_priorities_loop b' (drop k ps')"
    "size_buf b' = size_buf b2"
    using Suc.IH[OF b2(2) k v] by blast
  have "update_priorities_loop b (take (Suc k) ps) = Inr b'"
    using b2(1) b'(1) ps pr by (simp del: update_priorities_loop.simps)
  moreover have "update_priorities_loop b ps = update_priorities_loop b' (drop (Suc k) ps)"
    using b2(1) b'(2) ps pr by (simp del: update_priorities_loop.simps)
  ultimately show ?case using b'(3) b2(3) by simp
qed

text \<open>
  Claim C2, as the code has it. On a reachable state, a call of \<^verbatim>\<open>update_priorities\<close>
  in which some pair has a priority that is not positive fails with the AssertionError
  of the loop body. The pairs before the first pair that fails an assertion have been
  applied by then: the state at the failure is the state that the call with only these
  pairs produces. It is the state before the call if the first pair fails.
\<close>

theorem update_priorities_fails_after_prefix:
  assumes "reachable b" "\<exists>pr\<in>set (zip indices priorities). snd pr \<le> 0"
  shows "\<exists>k b'. k < length (zip indices priorities) \<and>
           (\<forall>j<k. valid_pair b (zip indices priorities ! j)) \<and>
           \<not> valid_pair b (zip indices priorities ! k) \<and>
           update_priorities b (take k indices) (take k priorities) = Inr b' \<and>
           update_priorities b indices priorities = Inl (AssertionError, b') \<and>
           (k = 0 \<longrightarrow> b' = b)"
proof -
  let ?ps = "zip indices priorities"
  let ?bad = "\<lambda>j. j < length ?ps \<and> \<not> valid_pair b (?ps ! j)"
  obtain pr where "pr \<in> set ?ps" "snd pr \<le> 0" using assms(2) by blast
  then obtain j0 where "j0 < length ?ps" "?ps ! j0 = pr"
    by (auto simp: in_set_conv_nth simp del: length_zip)
  then have "?bad j0" using \<open>snd pr \<le> 0\<close> by (simp add: valid_pair_def)
  define k where "k = (LEAST j. ?bad j)"
  have bad: "?bad k" unfolding k_def using \<open>?bad j0\<close> by (rule LeastI)
  have good: "\<forall>j<k. valid_pair b (?ps ! j)"
  proof (intro allI impI)
    fix j assume "j < k"
    then have "\<not> ?bad j" unfolding k_def by (rule not_less_Least)
    then show "valid_pair b (?ps ! j)" using \<open>j < k\<close> bad by simp
  qed
  have inv: "prioritized_inv b" using assms(1) by (rule reachable_inv)
  obtain b' where b': "update_priorities_loop b (take k ?ps) = Inr b'"
    "update_priorities_loop b ?ps = update_priorities_loop b' (drop k ?ps)"
    "size_buf b' = size_buf b"
    using update_prefix[OF inv _ good] bad by auto
  have "drop k ?ps = ?ps ! k # drop (Suc k) ?ps"
    using bad by (simp add: Cons_nth_drop_Suc del: length_zip)
  moreover have "\<not> valid_pair b' (?ps ! k)"
    using bad valid_pair_size[OF b'(3), of "?ps ! k"] by blast
  ultimately have "update_priorities_loop b' (drop k ?ps) = Inl (AssertionError, b')"
    using update_invalid[of b' "fst (?ps ! k)" "snd (?ps ! k)"] by simp
  then have fail: "update_priorities b indices priorities = Inl (AssertionError, b')"
    using b'(2) by (simp add: update_priorities_def)
  have pre: "update_priorities b (take k indices) (take k priorities) = Inr b'"
    using b'(1) by (simp add: update_priorities_def take_zip)
  have "k = 0 \<longrightarrow> b' = b" using b'(1) by auto
  then show ?thesis using bad good pre fail by blast
qed

theorem update_priorities_fails_after_prefix_witness:
  "reachable example_buffer \<and> (\<exists>pr\<in>set (zip [0, 1::int] [2, 0::real]). snd pr \<le> 0) \<and>
   (\<exists>k b'. k < length (zip [0, 1::int] [2, 0::real]) \<and>
      update_priorities example_buffer (take k [0, 1]) (take k [2, 0]) = Inr b' \<and>
      update_priorities example_buffer [0, 1] [2, 0] = Inl (AssertionError, b'))"
proof -
  have h: "\<exists>pr\<in>set (zip [0, 1::int] [2, 0::real]). snd pr \<le> 0" by simp
  from update_priorities_fails_after_prefix[OF example_buffer_reachable h]
  obtain k b' where "k < length (zip [0, 1::int] [2, 0::real])"
    "update_priorities example_buffer (take k [0, 1]) (take k [2, 0]) = Inr b'"
    "update_priorities example_buffer [0, 1] [2, 0] = Inl (AssertionError, b')"
    by blast
  then have "\<exists>k b'. k < length (zip [0, 1::int] [2, 0::real]) \<and>
      update_priorities example_buffer (take k [0, 1]) (take k [2, 0]) = Inr b' \<and>
      update_priorities example_buffer [0, 1] [2, 0] = Inl (AssertionError, b')"
    by blast
  then show ?thesis using example_buffer_reachable h by blast
qed

text \<open>
  Claim C2 fails as it is stated. In the state \<open>example_buffer\<close> the call
  \<^verbatim>\<open>update_priorities([0, 1], [2, 0])\<close> fails on its second pair, after the first pair has
  been applied: leaf 0 of the sum tree reads 1 before the call and 2 after it, leaf 0 of
  the min tree likewise, and \<^verbatim>\<open>_max_priority\<close> has gone from 1 to 2.
\<close>

theorem update_priorities_not_atomic:
  "reachable example_buffer \<and>
   update_priorities example_buffer [0, 1] [2, 0] = Inl (AssertionError, example_buffer_updated) \<and>
   st_get (st_sum example_buffer) 0 = Inr 1 \<and>
   st_get (st_sum example_buffer_updated) 0 = Inr 2 \<and>
   st_get (st_min example_buffer) 0 = Inr (Fin 1) \<and>
   st_get (st_min example_buffer_updated) 0 = Inr (Fin 2) \<and>
   max_priority example_buffer = 1 \<and> max_priority example_buffer_updated = 2 \<and>
   example_buffer_updated \<noteq> example_buffer"
proof -
  have "st_get (st_sum example_buffer) 0 = Inr 1" "st_get (st_sum example_buffer_updated) 0 = Inr 2"
    "st_get (st_min example_buffer) 0 = Inr (Fin 1)"
    "st_get (st_min example_buffer_updated) 0 = Inr (Fin 2)"
    by (simp_all add: st_get_def st_leaf_def example_buffer_def example_buffer_updated_def)
  moreover have "max_priority example_buffer = 1" "max_priority example_buffer_updated = 2"
    by (simp_all add: example_buffer_def example_buffer_updated_def)
  moreover from this have "example_buffer_updated \<noteq> example_buffer" by auto
  ultimately show ?thesis using example_update_raised example_buffer_reachable by simp
qed

text \<open>
  Claim C9. In every reachable state of the prioritized buffer with at least one
  transition, the total that \<^verbatim>\<open>_sample_proportionally\<close> takes for the strata, the range
  sum over the leaves \<open>0, ..., size - 1\<close>, is the full sum that the root of the sum tree
  holds and that \<^verbatim>\<open>sample\<close> divides by. The root holds the sum of all leaves, and every
  leaf at an index from the size on still is \<open>0\<close>.
\<close>

theorem strata_total_is_full_sum:
  assumes "reachable b" "1 \<le> size_buf b"
  shows "st_range_combine (+) 0 (st_sum b) 0 (size_buf b - 1) = Inr (st_root (st_sum b)) \<and>
         st_root (st_sum b) = (\<Sum>j<capacity (st_sum b). st_leaf (st_sum b) j) \<and>
         (\<forall>j<capacity (st_sum b). size_buf b \<le> int j \<longrightarrow> st_leaf (st_sum b) j = 0)"
proof -
  have inv: "prioritized_inv b" using assms(1) by (rule reachable_inv)
  then have t: "tree_inv (+) (st_sum b)" and al: "leaves_aligned b"
    by (simp_all add: prioritized_inv_def)
  have "\<forall>j<capacity (st_sum b). size_buf b \<le> int j \<longrightarrow> st_leaf (st_sum b) j = 0"
    using al by (auto simp: leaves_aligned_def)
  then show ?thesis
    using range_sum_is_root[OF inv assms(2)] sum_tree_root[OF t] by simp
qed

theorem strata_total_is_full_sum_witness:
  "reachable example_buffer_1 \<and> 1 \<le> size_buf example_buffer_1 \<and>
   st_range_combine (+) 0 (st_sum example_buffer_1) 0 (size_buf example_buffer_1 - 1)
     = Inr (st_root (st_sum example_buffer_1)) \<and>
   st_root (st_sum example_buffer_1) = 1 \<and>
   st_leaf (st_sum example_buffer_1) 1 = 0"
proof -
  have h: "1 \<le> size_buf example_buffer_1" by (simp add: example_buffer_1_fields)
  have "st_root (st_sum example_buffer_1) = 1" "st_leaf (st_sum example_buffer_1) 1 = 0"
    by (simp_all add: st_root_def st_leaf_def example_buffer_1_fields)
  then show ?thesis
    using strata_total_is_full_sum[OF example_buffer_1_reachable h] example_buffer_1_reachable h
    by simp
qed

text \<open>
  Claim C3. An insertion into a reachable prioritized buffer, when it returns, has
  written the transition to the slot under the cursor as it was before the call, and has
  set the leaf of that index to \<open>max_priority ^ alpha\<close> in the sum tree and in the min
  tree; every other leaf of either tree is as before.
\<close>

theorem insert_sets_one_leaf_in_each_tree:
  assumes "reachable b" "prioritized_add_transition b t = Inr b'"
  shows "0 \<le> current_idx b \<and> current_idx b < int (capacity (st_sum b)) \<and>
         transitions b' ! nat (current_idx b) = t \<and>
         capacity (st_sum b') = capacity (st_sum b) \<and>
         capacity (st_min b') = capacity (st_sum b) \<and>
         capacity (st_min b) = capacity (st_sum b) \<and>
         (\<forall>j<capacity (st_sum b). st_leaf (st_sum b') j =
            (if j = nat (current_idx b) then max_priority b powr alpha b
             else st_leaf (st_sum b) j)) \<and>
         (\<forall>j<capacity (st_sum b). st_leaf (st_min b') j =
            (if j = nat (current_idx b) then Fin (max_priority b powr alpha b)
             else st_leaf (st_min b) j))"
proof -
  have inv: "prioritized_inv b" using assms(1) by (rule reachable_inv)
  have m: "1 \<le> max_size b"
  proof (rule ccontr)
    assume "\<not> 1 \<le> max_size b"
    moreover have "store_inv b" using inv by (simp add: prioritized_inv_def)
    ultimately have "add_transition b t = Inl IndexError"
      by (auto simp: store_inv_def add_transition_def np_index_def Let_def)
    then show False using assms(2) by (simp add: prioritized_add_transition_def)
  qed
  obtain b2 v where f: "prioritized_add_transition b t = Inr b2"
    "py_pow (max_priority b) (alpha b) = Inr v"
    "capacity (st_sum b2) = capacity (st_sum b)"
    "capacity (st_min b2) = capacity (st_min b)"
    "\<forall>j<capacity (st_sum b). st_leaf (st_sum b2) j =
                (if j = nat (current_idx b) then v else st_leaf (st_sum b) j)"
    "\<forall>j<capacity (st_sum b). st_leaf (st_min b2) j =
                (if j = nat (current_idx b) then Fin v else st_leaf (st_min b) j)"
    "0 \<le> current_idx b" "current_idx b < int (capacity (st_sum b))"
    "transitions b2 ! nat (current_idx b) = t"
    using prioritized_add_transition_facts[OF inv m, of t] by blast
  have b2: "b2 = b'" using f(1) assms(2) by simp
  have mp: "0 < max_priority b" and c: "capacity (st_min b) = capacity (st_sum b)"
    using inv by (simp_all add: prioritized_inv_def)
  have v: "v = max_priority b powr alpha b"
    using f(2) mp by (simp add: py_pow_def split: if_splits)
  show ?thesis using f(3-) c unfolding b2 v by simp
qed

theorem insert_sets_one_leaf_in_each_tree_witness:
  "reachable example_buffer_1 \<and>
   prioritized_add_transition example_buffer_1 11 = Inr example_buffer \<and>
   transitions example_buffer ! nat (current_idx example_buffer_1) = 11 \<and>
   st_leaf (st_sum example_buffer) 1 = max_priority example_buffer_1 powr alpha example_buffer_1 \<and>
   st_leaf (st_min example_buffer) 1
     = Fin (max_priority example_buffer_1 powr alpha example_buffer_1) \<and>
   st_leaf (st_sum example_buffer) 0 = st_leaf (st_sum example_buffer_1) 0 \<and>
   st_leaf (st_min example_buffer) 0 = st_leaf (st_min example_buffer_1) 0"
proof -
  have c: "capacity (st_sum example_buffer_1) = 2" "nat (current_idx example_buffer_1) = 1"
    by (simp_all add: example_buffer_1_fields)
  from insert_sets_one_leaf_in_each_tree[OF example_buffer_1_reachable example_add_2]
  have "transitions example_buffer ! nat (current_idx example_buffer_1) = 11"
    and s: "\<forall>j<2. st_leaf (st_sum example_buffer) j =
            (if j = 1 then max_priority example_buffer_1 powr alpha example_buffer_1
             else st_leaf (st_sum example_buffer_1) j)"
    and m: "\<forall>j<2. st_leaf (st_min example_buffer) j =
            (if j = 1 then Fin (max_priority example_buffer_1 powr alpha example_buffer_1)
             else st_leaf (st_min example_buffer_1) j)"
    unfolding c by blast+
  moreover have "st_leaf (st_sum example_buffer) 1
      = max_priority example_buffer_1 powr alpha example_buffer_1"
    "st_leaf (st_sum example_buffer) 0 = st_leaf (st_sum example_buffer_1) 0"
    using s[rule_format, of 1] s[rule_format, of 0] by simp_all
  moreover have "st_leaf (st_min example_buffer) 1
      = Fin (max_priority example_buffer_1 powr alpha example_buffer_1)"
    "st_leaf (st_min example_buffer) 0 = st_leaf (st_min example_buffer_1) 0"
    using m[rule_format, of 1] m[rule_format, of 0] by simp_all
  ultimately show ?thesis using example_buffer_1_reachable example_add_2 by simp
qed

lemma prioritized_add_transition_frame:
  assumes "prioritized_add_transition b t = Inr b'"
  shows "max_priority b' = max_priority b \<and> alpha b' = alpha b \<and> beta b' = beta b"
proof -
  obtain b1 where b1: "add_transition b t = Inr b1"
    using assms by (auto simp: prioritized_add_transition_def Let_def split: sum.splits)
  obtain ts s c where "b1 = b\<lparr>transitions := ts, size_buf := s, current_idx := c\<rparr>"
    using add_transition_frame[OF b1] by blast
  then have "max_priority b1 = max_priority b" "alpha b1 = alpha b" "beta b1 = beta b"
    by simp_all
  moreover obtain mn sm where "b' = b1\<lparr>st_min := mn, st_sum := sm\<rparr>"
    using assms b1 by (auto simp: prioritized_add_transition_def Let_def split: sum.splits)
  ultimately show ?thesis by simp
qed

lemma update_priorities_loop_cases:
  assumes "update_priorities_loop b ((idx, p) # rest) = r"
  shows "(\<exists>e s. r = Inl (e, s) \<and> max_priority s = max_priority b) \<or>
         (\<exists>b2. r = update_priorities_loop b2 rest \<and>
               max_priority b2 = max (max_priority b) p)"
proof (cases "0 < p \<and> 0 \<le> idx \<and> idx < size_buf b")
  case False
  then have "r = Inl (AssertionError, b)" using assms by auto
  then show ?thesis by simp
next
  case True
  show ?thesis
  proof (cases "py_pow p (alpha b)")
    case (Inl e)
    then have "r = Inl (e, b)" using assms True by simp
    then show ?thesis by simp
  next
    case (Inr v)
    show ?thesis
    proof (cases "st_set (+) (st_sum b) idx v")
      case (Inl e)
      then have "r = Inl (e, b)" using assms True \<open>py_pow p (alpha b) = Inr v\<close> by simp
      then show ?thesis by simp
    next
      case sm: (Inr sm)
      show ?thesis
      proof (cases "st_set xmin (st_min b) idx (Fin v)")
        case (Inl e)
        then have "r = Inl (e, b\<lparr>st_sum := sm\<rparr>)"
          using assms True \<open>py_pow p (alpha b) = Inr v\<close> sm by simp
        then show ?thesis by simp
      next
        case mn: (Inr mn)
        have "r = update_priorities_loop
                    (b\<lparr>st_sum := sm, st_min := mn,
                       max_priority := max (max_priority b) p\<rparr>) rest"
          using assms True \<open>py_pow p (alpha b) = Inr v\<close> sm mn by simp
        then show ?thesis by (intro disjI2 exI) (rule conjI, assumption, simp)
      qed
    qed
  qed
qed

lemma update_priorities_loop_max:
  "(\<forall>b'. update_priorities_loop b ps = Inr b' \<longrightarrow>
      max_priority b' = Max (insert (max_priority b) (snd ` set ps))) \<and>
   (\<forall>e b'. update_priorities_loop b ps = Inl (e, b') \<longrightarrow> max_priority b \<le> max_priority b')"
proof (induction ps arbitrary: b)
  case Nil
  then show ?case by simp
next
  case (Cons pr ps)
  obtain idx p where pr: "pr = (idx, p)" by (cases pr)
  let ?r = "update_priorities_loop b ((idx, p) # ps)"
  from update_priorities_loop_cases[of b idx p ps ?r]
  consider (raised) e s where "?r = Inl (e, s)" "max_priority s = max_priority b"
    | (next_round) b2 where "?r = update_priorities_loop b2 ps"
        "max_priority b2 = max (max_priority b) p"
    by blast
  then show ?case
  proof cases
    case raised
    then show ?thesis using pr by simp
  next
    case next_round
    have fin: "finite (snd ` set ps)" by simp
    have "Max (insert (max_priority b2) (snd ` set ps))
            = Max (insert (max_priority b) (snd ` set (pr # ps)))"
    proof (cases "snd ` set ps = {}")
      case True
      then show ?thesis using next_round(2) pr by (simp add: max.commute)
    next
      case False
      then show ?thesis using next_round(2) pr fin
        by (simp add: max.assoc max.left_commute max.commute)
    qed
    moreover have "max_priority b \<le> max_priority b2" using next_round(2) by simp
    ultimately show ?thesis
      using Cons.IH[of b2] next_round(1) pr by (auto simp del: update_priorities_loop.simps)
  qed
qed

text \<open>
  Claim C6. \<^verbatim>\<open>_max_priority\<close> never decreases. An insertion leaves it as it is, and so
  does \<^verbatim>\<open>update_beta\<close>; \<^verbatim>\<open>sample\<close> and \<^verbatim>\<open>_sample_proportionally\<close> assign no field of the
  buffer, which is why their embeddings return no state. A call of
  \<^verbatim>\<open>update_priorities\<close> that returns has set it to the maximum of its old value and
  the priorities of the pairs it was given; a call that raises has not lowered it.
\<close>

theorem max_priority_never_decreases:
  "(prioritized_add_transition b t = Inr b' \<longrightarrow> max_priority b' = max_priority b) \<and>
   (update_priorities b indices priorities = Inr b' \<longrightarrow>
      max_priority b' = Max (insert (max_priority b) (snd ` set (zip indices priorities))) \<and>
      max_priority b \<le> max_priority b') \<and>
   (update_priorities b indices priorities = Inl (e, b') \<longrightarrow>
      max_priority b \<le> max_priority b') \<and>
   max_priority (update_beta b be) = max_priority b"
proof -
  have "update_priorities b indices priorities = Inr b' \<longrightarrow>
      max_priority b' = Max (insert (max_priority b) (snd ` set (zip indices priorities))) \<and>
      max_priority b \<le> max_priority b'"
  proof
    assume "update_priorities b indices priorities = Inr b'"
    then have "max_priority b' = Max (insert (max_priority b) (snd ` set (zip indices priorities)))"
      using update_priorities_loop_max[of b "zip indices priorities"]
      by (simp add: update_priorities_def)
    moreover have "max_priority b \<le> Max (insert (max_priority b) (snd ` set (zip indices priorities)))"
      by (rule Max_ge) simp_all
    ultimately show "max_priority b' = Max (insert (max_priority b) (snd ` set (zip indices priorities))) \<and>
      max_priority b \<le> max_priority b'" by simp
  qed
  moreover have "update_priorities b indices priorities = Inl (e, b') \<longrightarrow>
      max_priority b \<le> max_priority b'"
    using update_priorities_loop_max[of b "zip indices priorities"]
    by (simp add: update_priorities_def)
  ultimately show ?thesis
    using prioritized_add_transition_frame[of b t b'] by (simp add: update_beta_def)
qed

theorem max_priority_never_decreases_witness:
  "prioritized_add_transition example_buffer_1 11 = Inr example_buffer \<and>
   max_priority example_buffer = max_priority example_buffer_1 \<and>
   update_priorities example_buffer [0] [2] = Inr example_buffer_updated \<and>
   max_priority example_buffer_updated = Max (insert (max_priority example_buffer) {2}) \<and>
   max_priority example_buffer \<le> max_priority example_buffer_updated"
proof -
  have "snd ` set (zip [0::int] [2::real]) = {2}" by simp
  then show ?thesis
    using max_priority_never_decreases[of example_buffer_1 11 example_buffer "[]" "[]"
        AssertionError 0]
      max_priority_never_decreases[of example_buffer 11 example_buffer_updated "[0]" "[2]"
        AssertionError 0]
      example_add_2 example_update_done
    by simp
qed

section \<open>Properties of prioritized sampling\<close>

lemma aligned_leaf_cases:
  assumes "prioritized_inv b" "j < capacity (st_sum b)"
  shows "(int j < size_buf b \<and> 0 < st_leaf (st_sum b) j \<and>
            st_leaf (st_min b) j = Fin (st_leaf (st_sum b) j)) \<or>
         (size_buf b \<le> int j \<and> st_leaf (st_sum b) j = 0 \<and> st_leaf (st_min b) j = PInf)"
proof -
  have "leaves_aligned b" using assms(1) by (simp add: prioritized_inv_def)
  then have "if int j < size_buf b
        then 0 < st_leaf (st_sum b) j \<and> st_leaf (st_min b) j = Fin (st_leaf (st_sum b) j)
        else st_leaf (st_sum b) j = 0 \<and> st_leaf (st_min b) j = PInf"
    using assms(2) by (simp add: leaves_aligned_def)
  then show ?thesis by (cases "int j < size_buf b") simp_all
qed

lemma size_le_capacity:
  assumes "prioritized_inv b" "1 \<le> size_buf b"
  shows "size_buf b \<le> int (capacity (st_sum b))" "0 < capacity (st_sum b)"
    "size_buf b \<le> int (length (transitions b))"
proof -
  have "store_inv b" "max_size b \<le> int (capacity (st_sum b))"
    using assms(1) by (simp_all add: prioritized_inv_def)
  then show "size_buf b \<le> int (capacity (st_sum b))" "size_buf b \<le> int (length (transitions b))"
    using assms(2) by (auto simp: store_inv_def)
  then show "0 < capacity (st_sum b)" using assms(2) by simp
qed

lemma total_positive:
  assumes "prioritized_inv b" "1 \<le> size_buf b"
  shows "0 < st_root (st_sum b)"
proof -
  let ?c = "capacity (st_sum b)"
  have t: "tree_inv (+) (st_sum b)" using assms(1) by (simp add: prioritized_inv_def)
  have c: "0 < ?c" using size_le_capacity(2)[OF assms] .
  have nn: "\<And>j. j < ?c \<Longrightarrow> 0 \<le> st_leaf (st_sum b) j"
    using aligned_leaf_cases[OF assms(1)] by force
  have "0 < st_leaf (st_sum b) 0"
    using aligned_leaf_cases[OF assms(1) c] assms(2) by auto
  also have "st_leaf (st_sum b) 0 \<le> (\<Sum>j<?c. st_leaf (st_sum b) j)"
    by (rule member_le_sum) (use c nn in auto)
  finally show ?thesis using sum_tree_root[OF t] by simp
qed

lemma min_root_facts:
  assumes "prioritized_inv b" "1 \<le> size_buf b"
  shows "\<exists>m. st_root (st_min b) = Fin m \<and> 0 < m \<and>
           (\<forall>j. int j < size_buf b \<longrightarrow> m \<le> st_leaf (st_sum b) j)"
proof -
  let ?c = "capacity (st_sum b)"
  have t: "tree_inv xmin (st_min b)" and cc: "capacity (st_min b) = ?c"
    using assms(1) by (simp_all add: prioritized_inv_def)
  have c: "0 < ?c" using size_le_capacity(2)[OF assms] .
  obtain j0 where j0: "j0 < ?c" "st_root (st_min b) = st_leaf (st_min b) j0"
    using min_tree_root[OF t] cc by auto
  have le: "\<And>j. j < ?c \<Longrightarrow> xle (st_root (st_min b)) (st_leaf (st_min b) j)"
    using min_tree_root[OF t] cc by auto
  have "st_leaf (st_min b) 0 = Fin (st_leaf (st_sum b) 0)"
    using aligned_leaf_cases[OF assms(1) c] assms(2) by auto
  then have "xle (st_root (st_min b)) (Fin (st_leaf (st_sum b) 0))"
    using le[OF c] by simp
  then obtain m where m: "st_root (st_min b) = Fin m"
    by (cases "st_root (st_min b)") simp_all
  have "0 < m"
    using aligned_leaf_cases[OF assms(1) j0(1)] j0(2) m by auto
  moreover have "\<forall>j. int j < size_buf b \<longrightarrow> m \<le> st_leaf (st_sum b) j"
  proof (intro allI impI)
    fix j assume j: "int j < size_buf b"
    then have jc: "j < ?c" using size_le_capacity(1)[OF assms] by simp
    then have "st_leaf (st_min b) j = Fin (st_leaf (st_sum b) j)"
      using aligned_leaf_cases[OF assms(1) jc] j by auto
    then show "m \<le> st_leaf (st_sum b) j" using le[OF jc] m by simp
  qed
  ultimately show ?thesis using m by blast
qed

lemma find_prefix_index_occupied:
  assumes "prioritized_inv b" "0 \<le> mass" "mass < st_root (st_sum b)"
  shows "\<exists>idx. find_prefix_index (st_sum b) mass = Inr idx \<and> 0 \<le> idx \<and> idx < size_buf b"
proof -
  let ?t = "st_sum b"
  have t: "tree_inv (+) ?t" using assms(1) by (simp add: prioritized_inv_def)
  then obtain k where "capacity ?t = 2 ^ k" by (auto simp: tree_inv_def is_power_of_two_iff)
  then have "0 < capacity ?t" by simp
  then have c: "1 < 2 * capacity ?t" by linarith
  have "mass < nodes ?t ! 1" using assms(3) by (simp add: st_root_def)
  from st_descend_leaf[OF t _ c assms(2) this]
  have d: "st_descend ?t 1 mass < capacity ?t" "0 < st_leaf ?t (st_descend ?t 1 mass)"
    by simp_all
  have "int (st_descend ?t 1 mass) < size_buf b"
    using aligned_leaf_cases[OF assms(1) d(1)] d(2) by auto
  moreover have "find_prefix_index ?t mass = Inr (int (st_descend ?t 1 mass))"
    using assms(3) by (simp add: find_prefix_index_def)
  ultimately show ?thesis by simp
qed

lemma proportional_loop_occupied:
  assumes "prioritized_inv b" "0 < erl" "real n * erl \<le> st_root (st_sum b)"
    and "\<forall>i. 0 \<le> us i \<and> us i < 1" "\<forall>i\<in>set is. i < n"
  shows "\<exists>indices. proportional_loop (st_sum b) erl us is = Inr indices \<and>
           length indices = length is \<and> (\<forall>idx\<in>set indices. 0 \<le> idx \<and> idx < size_buf b)"
  using assms(5)
proof (induction "is")
  case Nil
  then show ?case by simp
next
  case (Cons i "is")
  let ?mass = "us i * erl + real i * erl"
  have u: "0 \<le> us i" "us i < 1" using assms(4) by simp_all
  have i: "i < n" using Cons.prems by simp
  have m0: "0 \<le> ?mass" using u(1) assms(2) by simp
  have "?mass < 1 * erl + real i * erl" using u(2) assms(2) by simp
  also have "\<dots> = real (Suc i) * erl" by (simp add: algebra_simps)
  also have "\<dots> \<le> real n * erl"
    using i assms(2) by (intro mult_right_mono) simp_all
  finally have m1: "?mass < st_root (st_sum b)" using assms(3) by simp
  obtain idx where idx: "find_prefix_index (st_sum b) ?mass = Inr idx" "0 \<le> idx"
    "idx < size_buf b"
    using find_prefix_index_occupied[OF assms(1) m0 m1] by blast
  obtain indices where ind: "proportional_loop (st_sum b) erl us is = Inr indices"
    "length indices = length is" "\<forall>idx\<in>set indices. 0 \<le> idx \<and> idx < size_buf b"
    using Cons.IH Cons.prems by auto
  show ?case using idx ind by (simp add: Let_def)
qed

lemma sample_proportionally_occupied:
  assumes "prioritized_inv b" "1 \<le> size_buf b" "1 \<le> bs" "\<forall>i. 0 \<le> us i \<and> us i < 1"
  shows "\<exists>indices. sample_proportionally b bs us = Inr indices \<and>
           length indices = nat bs \<and> (\<forall>idx\<in>set indices. 0 \<le> idx \<and> idx < size_buf b)"
proof -
  let ?total = "st_root (st_sum b)"
  let ?erl = "?total / of_int bs"
  have pos: "0 < ?total" using total_positive[OF assms(1,2)] .
  have erl: "0 < ?erl" using pos assms(3) by simp
  have "real (nat bs) * ?erl = ?total" using assms(3) by simp
  then have le: "real (nat bs) * ?erl \<le> ?total" by simp
  have "\<forall>i\<in>set [0..<nat bs]. i < nat bs" by simp
  from proportional_loop_occupied[OF assms(1) erl le assms(4) this]
  obtain indices where ind: "proportional_loop (st_sum b) ?erl us [0..<nat bs] = Inr indices"
    "length indices = length [0..<nat bs]" "\<forall>idx\<in>set indices. 0 \<le> idx \<and> idx < size_buf b"
    by blast
  have "sample_proportionally b bs us = Inr indices"
    using range_sum_is_root[OF assms(1,2)] assms(3) ind(1)
    by (simp add: sample_proportionally_def)
  then show ?thesis using ind(2,3) by simp
qed

lemma py_pow_positive_base: "0 < x \<Longrightarrow> py_pow x y = Inr (x powr y)"
  by (simp add: py_pow_def)

lemma zip_map_triple:
  "zip (map f xs) (zip (map g xs) xs) = map (\<lambda>x. (f x, g x, x)) xs"
  by (induction xs) simp_all

lemma weights_loop_occupied:
  assumes "prioritized_inv b" "1 \<le> size_buf b" "0 < mw"
    and "\<forall>idx\<in>set indices. 0 \<le> idx \<and> idx < size_buf b"
  shows "weights_loop b mw indices =
           Inr (map (\<lambda>idx. (st_leaf (st_sum b) (nat idx) / st_root (st_sum b)
                               * of_int (size_buf b)) powr (- beta b) / mw) indices)"
  using assms(4)
proof (induction indices)
  case Nil
  then show ?case by simp
next
  case (Cons idx indices)
  have i: "0 \<le> idx" "idx < size_buf b" using Cons.prems by simp_all
  have tot: "0 < st_root (st_sum b)" using total_positive[OF assms(1,2)] .
  have ic: "idx < int (capacity (st_sum b))"
    using i(2) size_le_capacity(1)[OF assms(1,2)] by simp
  then have nc: "nat idx < capacity (st_sum b)" using i(1) by simp
  have g: "st_get (st_sum b) idx = Inr (st_leaf (st_sum b) (nat idx))"
    using i(1) ic by (simp add: st_get_def)
  have "int (nat idx) < size_buf b" using i by simp
  then have lf: "0 < st_leaf (st_sum b) (nat idx)"
    using aligned_leaf_cases[OF assms(1) nc] by auto
  have "0 < st_leaf (st_sum b) (nat idx) / st_root (st_sum b) * of_int (size_buf b)"
    using lf tot assms(2) by simp
  then have p: "py_pow (st_leaf (st_sum b) (nat idx) / st_root (st_sum b) * of_int (size_buf b))
                  (- beta b)
                = Inr ((st_leaf (st_sum b) (nat idx) / st_root (st_sum b)
                        * of_int (size_buf b)) powr (- beta b))"
    by (rule py_pow_positive_base)
  have "weights_loop b mw indices =
           Inr (map (\<lambda>idx. (st_leaf (st_sum b) (nat idx) / st_root (st_sum b)
                               * of_int (size_buf b)) powr (- beta b) / mw) indices)"
    using Cons.IH Cons.prems by simp
  then show ?case using g p tot assms(3) by (simp add: Let_def)
qed

lemma prioritized_sample_returns:
  assumes "prioritized_inv b" "1 \<le> size_buf b" "1 \<le> batch_size"
    and "\<forall>i. 0 \<le> us i \<and> us i < 1"
  shows "\<exists>indices m.
           sample_proportionally b (min batch_size (size_buf b)) us = Inr indices \<and>
           length indices = nat (min batch_size (size_buf b)) \<and>
           (\<forall>idx\<in>set indices. 0 \<le> idx \<and> idx < size_buf b) \<and>
           st_root (st_min b) = Fin m \<and> 0 < m \<and>
           (\<forall>j. int j < size_buf b \<longrightarrow> m \<le> st_leaf (st_sum b) j) \<and>
           prioritized_sample b batch_size us =
             Inr (map (\<lambda>idx. (transitions b ! nat idx,
                     (st_leaf (st_sum b) (nat idx) / st_root (st_sum b)
                        * of_int (size_buf b)) powr (- beta b)
                     / (m / st_root (st_sum b) * of_int (size_buf b)) powr (- beta b),
                     idx)) indices)"
proof -
  let ?bs = "min batch_size (size_buf b)"
  let ?total = "st_root (st_sum b)"
  have clamp: "(if batch_size > size_buf b then size_buf b else batch_size) = ?bs" by auto
  have bs: "1 \<le> ?bs" using assms(2,3) by simp
  obtain indices where ind: "sample_proportionally b ?bs us = Inr indices"
    "length indices = nat ?bs" "\<forall>idx\<in>set indices. 0 \<le> idx \<and> idx < size_buf b"
    using sample_proportionally_occupied[OF assms(1,2) bs assms(4)] by blast
  have tot: "0 < ?total" using total_positive[OF assms(1,2)] .
  obtain m where m: "st_root (st_min b) = Fin m" "0 < m"
    "\<forall>j. int j < size_buf b \<longrightarrow> m \<le> st_leaf (st_sum b) j"
    using min_root_facts[OF assms(1,2)] by blast
  let ?mw = "(m / ?total * of_int (size_buf b)) powr (- beta b)"
  have base: "0 < m / ?total * of_int (size_buf b)" using m(2) tot assms(2) by simp
  then have mw: "py_pow (m / ?total * of_int (size_buf b)) (- beta b) = Inr ?mw"
    by (rule py_pow_positive_base)
  have "m / ?total * of_int (size_buf b) \<noteq> 0" using base by linarith
  then have mwp: "0 < ?mw" using powr_gt_zero[of "m / ?total * of_int (size_buf b)" "- beta b"]
    by blast
  have w: "weights_loop b ?mw indices =
           Inr (map (\<lambda>idx. (st_leaf (st_sum b) (nat idx) / ?total
                               * of_int (size_buf b)) powr (- beta b) / ?mw) indices)"
    by (rule weights_loop_occupied[OF assms(1,2) mwp ind(3)])
  have ne: "indices \<noteq> []" using ind(2) bs by auto
  have tr: "transitions b \<noteq> []" using size_le_capacity(3)[OF assms(1,2)] assms(2) by auto
  have "\<forall>i\<in>set indices. 0 \<le> i \<and> i < int (length (transitions b))"
    using ind(3) size_le_capacity(3)[OF assms(1,2)] by fastforce
  then have rows: "np_take_rows (transitions b) indices
                     = Inr (map (\<lambda>i. transitions b ! nat i) indices)"
    by (rule np_take_rows_in_range[OF tr])
  have "prioritized_sample b batch_size us =
          Inr (zip (map (\<lambda>i. transitions b ! nat i) indices)
                 (zip (map (\<lambda>idx. (st_leaf (st_sum b) (nat idx) / ?total
                               * of_int (size_buf b)) powr (- beta b) / ?mw) indices) indices))"
  proof -
    have z: "(st_root (st_sum b) = 0) = False" "(indices = []) = False"
      using tot ne by simp_all
    show ?thesis
      unfolding prioritized_sample_def Let_def clamp
      by (simp only: ind(1) m(1) mw w z rows sum.case xreal.case if_False)
  qed
  then show ?thesis using ind m by (simp only: zip_map_triple) blast
qed

lemma weights_loop_beta_zero:
  assumes "beta b = 0" "weights_loop b 1 indices = Inr ws"
  shows "\<forall>w\<in>set ws. w = 1"
  using assms(2)
proof (induction indices arbitrary: ws)
  case Nil
  then show ?case by simp
next
  case (Cons idx indices)
  have p: "\<And>x. py_pow x (- beta b) = Inr 1" using assms(1) by (simp add: py_pow_def)
  obtain ws' where ws': "weights_loop b 1 indices = Inr ws'" "ws = 1 # ws'"
    using Cons.prems by (auto simp: p Let_def split: sum.splits if_splits)
  then show ?case using Cons.IH[OF ws'(1)] by simp
qed

text \<open>
  Claim C5. With \<open>beta = 0\<close> every weight that \<^verbatim>\<open>sample\<close> returns is exactly 1, whatever
  the trees hold: Python's \<^verbatim>\<open>x ** (-0)\<close> is 1 for every \<open>x\<close>, so the maximal weight and
  every single weight are 1. On a reachable buffer with at least one transition, a batch
  size of at least 1 and random draws in \<open>[0, 1)\<close>, the call does return, with
  \<open>min batch_size size\<close> rows.
\<close>

theorem beta_zero_weights_are_one:
  assumes "beta b = 0"
  shows "(\<forall>res. prioritized_sample b batch_size us = Inr res \<longrightarrow>
            (\<forall>(t, w, idx)\<in>set res. w = 1)) \<and>
         (reachable b \<and> 1 \<le> size_buf b \<and> 1 \<le> batch_size \<and>
          (\<forall>i. 0 \<le> us i \<and> us i < 1) \<longrightarrow>
            (\<exists>res. prioritized_sample b batch_size us = Inr res \<and>
                   length res = nat (min batch_size (size_buf b))))"
proof
  have p: "\<And>x. py_pow x (- beta b) = Inr 1" using assms by (simp add: py_pow_def)
  show "\<forall>res. prioritized_sample b batch_size us = Inr res \<longrightarrow>
            (\<forall>(t, w, idx)\<in>set res. w = 1)"
  proof (intro allI impI)
    fix res assume "prioritized_sample b batch_size us = Inr res"
    then obtain indices ws rows where
      w: "weights_loop b 1 indices = Inr ws" and res: "res = zip rows (zip ws indices)"
      by (auto simp: prioritized_sample_def p Let_def split: sum.splits if_splits xreal.splits)
    have one: "\<forall>w\<in>set ws. w = 1" using weights_loop_beta_zero[OF assms w] .
    show "\<forall>(t, w, idx)\<in>set res. w = 1"
    proof
      fix x assume xr: "x \<in> set res"
      obtain t w i where x: "x = (t, w, i)" by (cases x) auto
      have "(t, w, i) \<in> set (zip rows (zip ws indices))" using xr x res by simp
      then have "(w, i) \<in> set (zip ws indices)" by (rule set_zip_rightD)
      then have "w \<in> set ws" by (rule set_zip_leftD)
      then show "case x of (t, w, idx) \<Rightarrow> w = 1" using one x by simp
    qed
  qed
next
  show "reachable b \<and> 1 \<le> size_buf b \<and> 1 \<le> batch_size \<and>
          (\<forall>i. 0 \<le> us i \<and> us i < 1) \<longrightarrow>
            (\<exists>res. prioritized_sample b batch_size us = Inr res \<and>
                   length res = nat (min batch_size (size_buf b)))"
  proof
    assume h: "reachable b \<and> 1 \<le> size_buf b \<and> 1 \<le> batch_size \<and>
          (\<forall>i. 0 \<le> us i \<and> us i < 1)"
    then have inv: "prioritized_inv b" by (simp add: reachable_inv)
    obtain indices m where
      "length indices = nat (min batch_size (size_buf b))"
      "prioritized_sample b batch_size us =
             Inr (map (\<lambda>idx. (transitions b ! nat idx,
                     (st_leaf (st_sum b) (nat idx) / st_root (st_sum b)
                        * of_int (size_buf b)) powr (- beta b)
                     / (m / st_root (st_sum b) * of_int (size_buf b)) powr (- beta b),
                     idx)) indices)"
      using prioritized_sample_returns[OF inv, of batch_size us] h by blast
    then show "\<exists>res. prioritized_sample b batch_size us = Inr res \<and>
                   length res = nat (min batch_size (size_buf b))"
      by simp
  qed
qed

lemma example_beta_zero_reachable: "reachable (update_beta example_buffer 0)"
  using example_buffer_reachable by (rule reachable_beta)

theorem beta_zero_weights_are_one_witness:
  "beta (update_beta example_buffer 0) = 0 \<and>
   reachable (update_beta example_buffer 0) \<and> 1 \<le> size_buf (update_beta example_buffer 0) \<and>
   (1::int) \<le> 2 \<and> (\<forall>i::nat. (0::real) \<le> 1 / 2 \<and> (1::real) / 2 < 1) \<and>
   (\<exists>res. prioritized_sample (update_beta example_buffer 0) 2 (\<lambda>i. 1 / 2) = Inr res \<and>
      length res = 2 \<and> (\<forall>(t, w, idx)\<in>set res. w = 1))"
proof -
  let ?b = "update_beta example_buffer 0"
  have h0: "beta ?b = 0" by (simp add: update_beta_def)
  have h: "reachable ?b \<and> 1 \<le> size_buf ?b \<and> (1::int) \<le> 2 \<and>
          (\<forall>i::nat. (0::real) \<le> (\<lambda>i. 1 / 2) i \<and> (\<lambda>i. 1 / 2) i < (1::real))"
    using example_beta_zero_reachable by (simp add: update_beta_def example_buffer_fields)
  from beta_zero_weights_are_one[OF h0, of 2 "\<lambda>i. 1 / 2"] h
  obtain res where res: "prioritized_sample ?b 2 (\<lambda>i. 1 / 2) = Inr res"
    "length res = nat (min 2 (size_buf ?b))" "\<forall>(t, w, idx)\<in>set res. w = 1"
    by blast
  have "length res = 2" using res(2) by (simp add: update_beta_def example_buffer_fields)
  then show ?thesis using h0 h res(1,3) by auto
qed

lemma py_pow_nonneg_base: "0 \<le> x \<Longrightarrow> py_pow x y \<noteq> Inl Unmodelled"
  by (simp add: py_pow_def)

lemma proportional_loop_kinds: "proportional_loop t erl us is \<noteq> Inl Unmodelled"
  by (induction "is") (auto simp: find_prefix_index_def Let_def split: sum.splits)

lemma sample_proportionally_kinds: "sample_proportionally b bs us \<noteq> Inl Unmodelled"
  using proportional_loop_kinds
  by (auto simp: sample_proportionally_def st_range_combine_def split: sum.splits if_splits)

lemma weights_loop_kinds:
  assumes "prioritized_inv b" "1 \<le> size_buf b"
  shows "weights_loop b mw indices \<noteq> Inl Unmodelled"
proof (induction indices)
  case Nil
  then show ?case by simp
next
  case (Cons idx indices)
  have tot: "0 < st_root (st_sum b)" using total_positive[OF assms] .
  show ?case
  proof (cases "0 \<le> idx \<and> idx < int (capacity (st_sum b))")
    case False
    then show ?thesis by (auto simp: st_get_def)
  next
    case True
    then have g: "st_get (st_sum b) idx = Inr (st_leaf (st_sum b) (nat idx))"
      by (simp add: st_get_def)
    have "nat idx < capacity (st_sum b)" using True by (simp add: nat_less_iff)
    then have "0 \<le> st_leaf (st_sum b) (nat idx)"
      using aligned_leaf_cases[OF assms(1)] by force
    then have "0 \<le> st_leaf (st_sum b) (nat idx) / st_root (st_sum b) * of_int (size_buf b)"
      using tot assms(2) by simp
    then have "py_pow (st_leaf (st_sum b) (nat idx) / st_root (st_sum b) * of_int (size_buf b))
                 (- beta b) \<noteq> Inl Unmodelled"
      by (rule py_pow_nonneg_base)
    then show ?thesis
      using g Cons.IH by (auto simp: Let_def split: sum.splits if_splits)
  qed
qed

lemma np_take_rows_kinds: "np_take_rows xs is \<noteq> Inl Unmodelled"
  by (induction "is") (auto simp: np_index_def Let_def split: sum.splits if_splits)

lemma prioritized_sample_kinds:
  assumes "prioritized_inv b"
  shows "prioritized_sample b batch_size us \<noteq> Inl Unmodelled"
proof (cases "1 \<le> size_buf b")
  case True
  have tot: "0 < st_root (st_sum b)" using total_positive[OF assms True] .
  obtain m where m: "st_root (st_min b) = Fin m" "0 < m"
    using min_root_facts[OF assms True] by blast
  have "0 \<le> m / st_root (st_sum b) * of_int (size_buf b)" using m(2) tot True by simp
  then have p: "py_pow (m / st_root (st_sum b) * of_int (size_buf b)) (- beta b)
                  \<noteq> Inl Unmodelled"
    by (rule py_pow_nonneg_base)
  note r = np_take_rows_kinds[of "transitions b"]
  show ?thesis
    unfolding prioritized_sample_def Let_def
    using sample_proportionally_kinds[of b _ us] weights_loop_kinds[OF assms True] p r m(1)
    by (auto split: sum.splits if_splits)
next
  case False
  then have z: "size_buf b = 0"
    using assms by (auto simp: prioritized_inv_def store_inv_def)
  have t: "tree_inv (+) (st_sum b)" using assms by (simp add: prioritized_inv_def)
  have "\<forall>j<capacity (st_sum b). st_leaf (st_sum b) j = 0"
    using aligned_leaf_cases[OF assms] z by force
  then have "st_root (st_sum b) = 0" using sum_tree_root[OF t] by simp
  then show ?thesis
    unfolding prioritized_sample_def Let_def
    using sample_proportionally_kinds[of b _ us] by (auto split: sum.splits)
qed

lemma prioritized_add_transition_kinds:
  assumes "prioritized_inv b"
  shows "prioritized_add_transition b t \<noteq> Inl Unmodelled"
proof (cases "1 \<le> max_size b")
  case True
  then show ?thesis using prioritized_add_transition_facts[OF assms True, of t] by auto
next
  case False
  moreover have "store_inv b" using assms by (simp add: prioritized_inv_def)
  ultimately have "add_transition b t = Inl IndexError"
    by (auto simp: store_inv_def add_transition_def np_index_def Let_def)
  then show ?thesis by (simp add: prioritized_add_transition_def)
qed

lemma update_priorities_loop_kinds:
  assumes "prioritized_inv b" "update_priorities_loop b ps = Inl (e, b')"
  shows "e = AssertionError"
  using assms
proof (induction ps arbitrary: b)
  case Nil
  then show ?case by simp
next
  case (Cons pr ps)
  obtain idx p where pr: "pr = (idx, p)" by (cases pr)
  show ?case
  proof (cases "valid_pair b (idx, p)")
    case True
    obtain b2 where b2: "update_priorities_loop b ((idx, p) # ps) = update_priorities_loop b2 ps"
      "prioritized_inv b2"
      using update_round[OF Cons.prems(1) True] by blast
    show ?thesis using Cons.IH[OF b2(2)] b2(1) Cons.prems(2) pr by simp
  next
    case False
    show ?thesis using update_invalid[OF False, of ps] Cons.prems(2) pr by simp
  qed
qed

text \<open>
  On the states that the buffer can reach no method ends in \<open>Unmodelled\<close>: the powers are
  taken of bases that are not negative, and the minimum is read from the min tree only
  when a slot is occupied.
\<close>

lemma unmodelled_not_reached:
  assumes "reachable b"
  shows "prioritized_add_transition b t \<noteq> Inl Unmodelled"
    and "update_priorities b indices priorities \<noteq> Inl (Unmodelled, b')"
    and "prioritized_sample b batch_size us \<noteq> Inl Unmodelled"
proof -
  have inv: "prioritized_inv b" using assms by (rule reachable_inv)
  show "prioritized_add_transition b t \<noteq> Inl Unmodelled"
    using inv by (rule prioritized_add_transition_kinds)
  show "update_priorities b indices priorities \<noteq> Inl (Unmodelled, b')"
    using update_priorities_loop_kinds[OF inv, of "zip indices priorities" Unmodelled b']
    by (auto simp: update_priorities_def)
  show "prioritized_sample b batch_size us \<noteq> Inl Unmodelled"
    using inv by (rule prioritized_sample_kinds)
qed

end
